theory Spec2Isabelle
  imports Main "HOL-Library.Sublist" "HOL-Library.Multiset" "HOL-Library.Product_Lexorder"
    "HOL-Library.AList"
begin

section \<open>Strings, symbols and the grammar model\<close>

text \<open>
  A JavaScript string is a sequence of UTF-16 code units, and \<open>length\<close>, \<open>startsWith\<close>,
  \<open>substring\<close> and indexing all count code units. A symbol is therefore a list of code units
  (natural numbers). The reserved symbols of the sources are \<open>'$'\<close> (code unit 36) and
  \<open>'\<epsilon>'\<close> (U+03B5, code unit 949); the apostrophe is code unit 39.

  A \<open>Set<string>\<close> is iterated in insertion order; it is modelled as the list of its members in
  that order.
\<close>

type_synonym symbol = "nat list"

definition DOLLAR :: symbol where
  "DOLLAR = [36]"

definition EPS :: symbol where
  "EPS = [949]"

definition asc :: "string \<Rightarrow> symbol" where
  "asc s = map of_char s"

subsection \<open>Objects used as dictionaries\<close>

text \<open>
  The parsing tables, the transitions of a state and the FIRST and FOLLOW sets are plain
  objects (\<open>Record<K, V>\<close>), created by \<open>{}\<close> and filled by assignment; a map holds what the
  assignments stored. A read \<open>obj[k]\<close> finds that first. For a key that was never assigned it
  finds what the object inherits: every object inherits the properties of \<open>Object.prototype\<close>,
  whose names are listed below, and a read of one of them returns a function (for
  \<open>__proto__\<close>, the prototype object itself). Such a value is \<open>Inherited k\<close>. It is truthy, it is
  not \<open>undefined\<close>, and it has none of the properties \<open>type\<close>, \<open>value\<close>, \<open>size\<close>, \<open>add\<close> and
  \<open>forEach\<close> that the sources read from what they find.

  An assignment to the key \<open>__proto__\<close> stores no property. When the assigned value is an
  object, it becomes the prototype of the dictionary and is what a later read of \<open>__proto__\<close>
  returns; the map keeps it under that key, and the properties of that object are inherited
  too. When the assigned value is a number, the assignment does nothing.
\<close>

datatype 'a js_val = Val 'a | Inherited symbol

definition is_val :: "'a js_val \<Rightarrow> bool" where
  "is_val v = (case v of Val _ \<Rightarrow> True | Inherited _ \<Rightarrow> False)"

definition PROTO :: symbol where
  "PROTO = asc ''__proto__''"

definition object_prototype_keys :: "symbol list" where
  "object_prototype_keys =
     map asc [''constructor'', ''__defineGetter__'', ''__defineSetter__'', ''hasOwnProperty'',
       ''__lookupGetter__'', ''__lookupSetter__'', ''isPrototypeOf'', ''propertyIsEnumerable'',
       ''toString'', ''valueOf'', ''__proto__'', ''toLocaleString'']"

text \<open>A dictionary of numbers (a row of the goto table, the transitions of a state): a
  number assigned to \<open>__proto__\<close> is dropped.\<close>

definition num_get :: "(symbol \<rightharpoonup> nat) \<Rightarrow> symbol \<Rightarrow> nat js_val option" where
  "num_get row k =
     (case row k of
        Some n \<Rightarrow> Some (Val n)
      | None \<Rightarrow> if k \<in> set object_prototype_keys then Some (Inherited k) else None)"

definition num_put :: "(symbol \<rightharpoonup> nat) \<Rightarrow> symbol \<Rightarrow> nat \<Rightarrow> (symbol \<rightharpoonup> nat)" where
  "num_put row k n = (if k = PROTO then row else row(k \<mapsto> n))"

record production =
  prod_id :: nat
  head :: symbol
  body :: "symbol list"

record grammar =
  productions :: "production list"
  terminals :: "symbol list"
  nonTerminals :: "symbol list"
  startSymbol :: symbol

text \<open>\<open>Set.prototype.add\<close>: a member already present keeps its place.\<close>

definition set_add :: "'a \<Rightarrow> 'a list \<Rightarrow> 'a list" where
  "set_add x xs = (if x \<in> set xs then xs else xs @ [x])"

text \<open>\<open>productions.find(p => p.id === i)\<close>: the first production carrying the id, if any.\<close>

definition find_production :: "grammar \<Rightarrow> nat \<Rightarrow> production option" where
  "find_production g i = find (\<lambda>p. prod_id p = i) (productions g)"

section \<open>Grammar augmentation\<close>

definition augmentGrammar :: "grammar \<Rightarrow> grammar" where
  "augmentGrammar g =
     (let newStartSymbol = startSymbol g @ [39];
          augmentedProduction = \<lparr>prod_id = 0, head = newStartSymbol, body = [startSymbol g]\<rparr>;
          newProductions =
            augmentedProduction #
              map (\<lambda>(p, i). p\<lparr>prod_id := i + 1\<rparr>)
                (zip (productions g) [0 ..< length (productions g)]);
          newNonTerminals = set_add newStartSymbol (nonTerminals g)
      in g\<lparr>productions := newProductions,
           nonTerminals := newNonTerminals,
           startSymbol := newStartSymbol\<rparr>)"

text \<open>Every symbol a grammar mentions: its start symbol, its two symbol sets, and the heads
  and bodies of its productions.\<close>

definition grammar_symbols :: "grammar \<Rightarrow> symbol list" where
  "grammar_symbols g =
     startSymbol g # terminals g @ nonTerminals g @
       concat (map (\<lambda>p. head p # body p) (productions g))"

section \<open>The parse simulator\<close>

text \<open>
  The declarations of \<open>ParsingTable\<close>, \<open>ActionEntry\<close>, \<open>ParseStep\<close> and \<open>ParseTreeNode\<close> are not
  among the sources; the types below list the fields the functions read and write.
  Modelled from the spec: an action entry is the tagged variant
  \<open>Shift(targetState) | Reduce(productionId) | Accept\<close>.
\<close>

datatype action_entry = Shift nat | Reduce nat | Accept

text \<open>The optional \<open>value\<close> field of an entry: \<open>buildTable\<close> writes \<open>{type: 'shift', value: n}\<close>,
  \<open>{type: 'reduce', value: n}\<close> and \<open>{type: 'accept'}\<close>.\<close>

definition entry_value :: "action_entry \<Rightarrow> nat option" where
  "entry_value e = (case e of Shift n \<Rightarrow> Some n | Reduce n \<Rightarrow> Some n | Accept \<Rightarrow> None)"

text \<open>
  Reading a row of the action table. An entry assigned to \<open>__proto__\<close> is the prototype of the
  row, so the row also inherits that entry's \<open>type\<close> (a non-empty string) and \<open>value\<close> (a number,
  if it has one). Both places that read a cell test what they find for truth before anything
  else, so a read that finds \<open>undefined\<close> or the number 0 is a read that finds nothing.
\<close>

definition row_get :: "(symbol \<rightharpoonup> action_entry) \<Rightarrow> symbol \<Rightarrow> action_entry js_val option" where
  "row_get row k =
     (case row k of
        Some e \<Rightarrow> Some (Val e)
      | None \<Rightarrow>
          if k \<in> set object_prototype_keys then Some (Inherited k)
          else
            (case row PROTO of
               None \<Rightarrow> None
             | Some e \<Rightarrow>
                 if k = asc ''type'' then Some (Inherited k)
                 else if k = asc ''value''
                   \<and> (case entry_value e of None \<Rightarrow> False | Some n \<Rightarrow> n \<noteq> 0)
                 then Some (Inherited k)
                 else None))"

text \<open>A conflict's \<open>type\<close> field is one of the two strings \<open>'Shift-Reduce'\<close> and
  \<open>'Reduce-Reduce'\<close>; its \<open>existing\<close> field is whatever the cell was read as.\<close>

datatype conflict_kind = Shift_Reduce | Reduce_Reduce

record conflict =
  c_state :: nat
  c_symbol :: symbol
  c_type :: conflict_kind
  c_existing :: "action_entry js_val"
  c_new :: action_entry

record parsing_table =
  action :: "nat \<rightharpoonup> (symbol \<rightharpoonup> action_entry)"
  goto :: "nat \<rightharpoonup> (symbol \<rightharpoonup> nat)"
  table_terminals :: "symbol list"
  table_nonTerminals :: "symbol list"
  conflicts :: "conflict list"

text \<open>
  A tree node. Its \<open>id\<close> is the string \<open>node-n\<close> for the value \<open>n\<close> of the run's counter; the
  model keeps \<open>n\<close>. A label or a value may be \<open>undefined\<close> (\<open>None\<close>).
\<close>

datatype node = Node (node_id: nat) (label: "symbol option") (children: "node list")
  (node_value: "symbol option")

text \<open>
  A step's \<open>action\<close> and \<open>explanation\<close> are strings built from templates. The model keeps the
  template and its arguments: \<open>ActError\<close> is the string \<open>'Error'\<close>, \<open>ActAccept\<close> is \<open>'Accept'\<close>, and
  the three explanations of an \<open>'Error'\<close> step begin with \<open>Syntax Error\<close>, \<open>Goto Error\<close> and
  \<open>Runtime Error\<close>.
\<close>

text \<open>An entry of the state stack: a state number, or the inherited value that a read of the
  goto table returned and line 182 pushed.\<close>

type_synonym state_ref = "nat js_val"

datatype step_action = ActError | ActShift nat | ActReduce nat symbol "symbol list"
  | ActGoTo symbol "state_ref option" state_ref | ActAccept

datatype explanation =
    SyntaxError "state_ref option" "symbol option"
  | ShiftExpl "symbol option" nat
  | ReduceExpl "symbol list" symbol
  | GotoError "state_ref option" symbol
  | GotoExpl state_ref symbol
  | AcceptExpl
  | RuntimeError

record parse_step =
  step_no :: nat
  step_stack :: "state_ref list"
  step_symbols :: "symbol option list"
  step_input :: "symbol list"
  step_action :: step_action
  step_explanation :: explanation
  forest :: "node list"

text \<open>The optional resume options (the \<open>debug\<close> flag only switches console output on).\<close>

record sim_opts =
  initialStack :: "nat list option"
  initialSymbols :: "symbol list option"

subsection \<open>Tokenization\<close>

text \<open>The code units \<open>String.prototype.trim\<close> strips: white space and line terminators.\<close>

definition is_js_space :: "nat \<Rightarrow> bool" where
  "is_js_space c \<longleftrightarrow>
     c \<in> set [9, 10, 11, 12, 13, 32, 160, 5760, 8232, 8233, 8239, 8287, 12288, 65279]
     \<or> (8192 \<le> c \<and> c \<le> 8202)"

definition trim :: "nat list \<Rightarrow> nat list" where
  "trim s = rev (dropWhile is_js_space (rev (dropWhile is_js_space s)))"

definition startsWith :: "nat list \<Rightarrow> nat list \<Rightarrow> bool" where
  "startsWith s t \<longleftrightarrow> take (length t) s = t"

text \<open>\<open>Array.prototype.sort\<close> is stable; the comparator orders by decreasing length.\<close>

definition sortedTerminals :: "grammar \<Rightarrow> symbol list" where
  "sortedTerminals g =
     sort_key (\<lambda>t. - int (length t)) (filter (\<lambda>t. t \<noteq> DOLLAR \<and> t \<noteq> EPS) (terminals g))"

text \<open>The \<open>while (remaining.length > 0)\<close> loop; it need not end, so its result is optional.\<close>

partial_function (option) tokenize_loop ::
  "symbol list \<Rightarrow> nat list \<Rightarrow> symbol list \<Rightarrow> symbol list option" where
  "tokenize_loop ts remaining tokens =
     (if length remaining > 0 then
        (if startsWith remaining [32] then tokenize_loop ts (drop 1 remaining) tokens
         else
           (case find (\<lambda>t. startsWith remaining t) ts of
              Some t \<Rightarrow> tokenize_loop ts (trim (drop (length t) remaining)) (tokens @ [t])
            | None \<Rightarrow>
                tokenize_loop ts (trim (drop 1 remaining)) (tokens @ [[remaining ! 0]])))
      else Some tokens)"

declare tokenize_loop.simps [code]

definition tokenize :: "grammar \<Rightarrow> nat list \<Rightarrow> symbol list option" where
  "tokenize g inputStr =
     (case tokenize_loop (sortedTerminals g) (trim inputStr) [] of
        None \<Rightarrow> None
      | Some tokens \<Rightarrow> Some (tokens @ [DOLLAR]))"

subsection \<open>Initial configuration\<close>

definition init_stack :: "sim_opts option \<Rightarrow> nat list" where
  "init_stack opts =
     (case opts of
        None \<Rightarrow> [0]
      | Some os \<Rightarrow>
          (case initialStack os of
             None \<Rightarrow> [0]
           | Some s \<Rightarrow> if length s > 0 then s else [0]))"

text \<open>\<open>opts?.initialSymbols && opts.initialSymbols.length > 0\<close>: the symbols given, when there
  are any.\<close>

definition given_symbols :: "sim_opts option \<Rightarrow> symbol list option" where
  "given_symbols opts =
     (case opts of
        None \<Rightarrow> None
      | Some os \<Rightarrow>
          (case initialSymbols os of
             None \<Rightarrow> None
           | Some s \<Rightarrow> if length s > 0 then Some s else None))"

definition init_stacks :: "sim_opts option \<Rightarrow> nat list \<times> symbol option list" where
  "init_stacks opts =
     (let stack0 = init_stack opts;
          symbols0 =
            (case given_symbols opts of
               Some s \<Rightarrow> map Some s
             | None \<Rightarrow> replicate (length stack0) (Some DOLLAR));
          symbols1 =
            (if length symbols0 < length stack0
             then replicate (length stack0 - length symbols0) (Some DOLLAR) @ symbols0
             else symbols0);
          stack1 =
            (if length symbols1 > length stack0
             then replicate (length symbols1 - length stack0) 0 @ stack0
             else stack0)
      in (stack1, symbols1))"

text \<open>\<open>createNode(s, [], val)\<close> for each symbol of a list, the counter starting at \<open>n\<close>.\<close>

definition placeholder_nodes :: "nat \<Rightarrow> symbol option list \<Rightarrow> node list" where
  "placeholder_nodes n ss =
     map (\<lambda>(s, i). Node i s [] (if s = Some DOLLAR \<or> s = Some EPS then None else s))
       (zip ss [n ..< n + length ss])"

definition init_nodes :: "sim_opts option \<Rightarrow> symbol option list \<Rightarrow> node list" where
  "init_nodes opts syms =
     (case given_symbols opts of
        Some s \<Rightarrow> placeholder_nodes 0 (map Some s)
      | None \<Rightarrow> if length syms > 0 \<and> 0 \<noteq> length syms then placeholder_nodes 0 syms else [])"

record sim_state =
  stack :: "state_ref list"
  symbols :: "symbol option list"
  nodeStack :: "node list"
  steps :: "parse_step list"
  inputIdx :: nat
  stepCount :: nat
  nodeIdCounter :: nat

definition init_state :: "sim_opts option \<Rightarrow> sim_state" where
  "init_state opts =
     (let (stk, syms) = init_stacks opts; nodes = init_nodes opts syms
      in \<lparr>stack = map Val stk, symbols = syms, nodeStack = nodes, steps = [], inputIdx = 0,
          stepCount = 0, nodeIdCounter = length nodes\<rparr>)"

subsection \<open>The execution loop\<close>

definition MAX_STEPS :: nat where
  "MAX_STEPS = 500"

text \<open>Reading past the end of an array, or the top of an empty one, gives \<open>undefined\<close>.\<close>

definition nth_opt :: "'a list \<Rightarrow> nat \<Rightarrow> 'a option" where
  "nth_opt xs i = (if i < length xs then Some (xs ! i) else None)"

definition last_opt :: "'a list \<Rightarrow> 'a option" where
  "last_opt xs = (if xs = [] then None else Some (last xs))"

text \<open>An \<open>undefined\<close> lookahead used as a property key is the string \<open>'undefined'\<close>.\<close>

definition js_key :: "symbol option \<Rightarrow> symbol" where
  "js_key la = (case la of None \<Rightarrow> asc ''undefined'' | Some t \<Rightarrow> t)"

text \<open>
  \<open>table.action[currentState]?.[lookahead]\<close> and \<open>table.goto[stateBeforeGoto]?.[prod.head]\<close>. The
  outer objects are keyed by state numbers. A state that is \<open>undefined\<close> (an empty stack) or an
  inherited value is turned into a string that is neither a state number nor the name of an
  inherited property, so the outer read finds nothing.
\<close>

definition lookup_action ::
  "parsing_table \<Rightarrow> state_ref option \<Rightarrow> symbol option \<Rightarrow> action_entry js_val option" where
  "lookup_action tbl currentState lookahead =
     (case currentState of
        Some (Val s) \<Rightarrow>
          (case action tbl s of None \<Rightarrow> None | Some row \<Rightarrow> row_get row (js_key lookahead))
      | _ \<Rightarrow> None)"

definition lookup_goto :: "parsing_table \<Rightarrow> state_ref option \<Rightarrow> symbol \<Rightarrow> state_ref option" where
  "lookup_goto tbl stateBeforeGoto h =
     (case stateBeforeGoto of
        Some (Val s) \<Rightarrow> (case goto tbl s of None \<Rightarrow> None | Some row \<Rightarrow> num_get row h)
      | _ \<Rightarrow> None)"

text \<open>The snapshot every \<open>steps.push\<close> takes of the three stacks and the remaining input.\<close>

definition mk_step ::
  "sim_state \<Rightarrow> symbol list \<Rightarrow> step_action \<Rightarrow> explanation \<Rightarrow> parse_step" where
  "mk_step st tokens a e =
     \<lparr>step_no = stepCount st, step_stack = stack st, step_symbols = symbols st,
      step_input = drop (inputIdx st) tokens, step_action = a, step_explanation = e,
      forest = nodeStack st\<rparr>"

definition push_step :: "step_action \<Rightarrow> explanation \<Rightarrow> symbol list \<Rightarrow> sim_state \<Rightarrow> sim_state" where
  "push_step a e tokens st = st\<lparr>steps := steps st @ [mk_step st tokens a e]\<rparr>"

text \<open>The same with \<open>step: stepCount++\<close>.\<close>

definition push_step_incr ::
  "step_action \<Rightarrow> explanation \<Rightarrow> symbol list \<Rightarrow> sim_state \<Rightarrow> sim_state" where
  "push_step_incr a e tokens st =
     st\<lparr>steps := steps st @ [mk_step st tokens a e], stepCount := stepCount st + 1\<rparr>"

text \<open>The pop loop of a reduction: \<open>pop\<close> on an empty array returns \<open>undefined\<close> and leaves it
  empty, and an \<open>undefined\<close> node is not made a child.\<close>

fun pop_loop :: "nat \<Rightarrow> node list \<Rightarrow> sim_state \<Rightarrow> node list \<times> sim_state" where
  "pop_loop 0 chs st = (chs, st)"
| "pop_loop (Suc n) chs st =
     pop_loop n
       (case last_opt (nodeStack st) of None \<Rightarrow> chs | Some nd \<Rightarrow> nd # chs)
       (st\<lparr>nodeStack := butlast (nodeStack st), stack := butlast (stack st),
           symbols := butlast (symbols st)\<rparr>)"

text \<open>How one pass through the loop body ends: it falls through to the next pass, it executes
  \<open>break\<close>, or it throws (reading \<open>prod.body\<close> of an \<open>undefined\<close> production).\<close>

datatype 'a outcome = Continue 'a | Break 'a | Throw 'a

definition do_shift :: "symbol list \<Rightarrow> symbol option \<Rightarrow> nat \<Rightarrow> sim_state \<Rightarrow> sim_state" where
  "do_shift tokens lookahead nextState st =
     (let st1 = push_step_incr (ActShift nextState) (ShiftExpl lookahead nextState) tokens st;
          leaf = Node (nodeIdCounter st1) lookahead []
                   (if lookahead = Some DOLLAR then None else lookahead)
      in st1\<lparr>nodeIdCounter := nodeIdCounter st1 + 1,
             nodeStack := nodeStack st1 @ [leaf],
             stack := stack st1 @ [Val nextState],
             symbols := symbols st1 @ [lookahead],
             inputIdx := inputIdx st1 + 1\<rparr>)"

definition do_reduce ::
  "parsing_table \<Rightarrow> symbol list \<Rightarrow> production \<Rightarrow> sim_state \<Rightarrow> sim_state outcome" where
  "do_reduce tbl tokens prd st =
     (let isEpsilonReduction = (length (body prd) = 1 \<and> body prd ! 0 = EPS);
          popCount = (if isEpsilonReduction then 0 else length (body prd));
          st1 = push_step_incr (ActReduce (prod_id prd) (head prd) (body prd))
                  (ReduceExpl (body prd) (head prd)) tokens st;
          (chs, st2) = pop_loop popCount [] st1;
          (chs, st3) =
            (if isEpsilonReduction
             then (chs @ [Node (nodeIdCounter st2) (Some EPS) [] None],
                   st2\<lparr>nodeIdCounter := nodeIdCounter st2 + 1\<rparr>)
             else (chs, st2));
          newNode = Node (nodeIdCounter st3) (Some (head prd)) chs None;
          st4 = st3\<lparr>nodeIdCounter := nodeIdCounter st3 + 1\<rparr>;
          stateBeforeGoto = last_opt (stack st4)
      in case lookup_goto tbl stateBeforeGoto (head prd) of
           None \<Rightarrow> Break (push_step ActError (GotoError stateBeforeGoto (head prd)) tokens st4)
         | Some nextState \<Rightarrow>
             Continue
               (push_step_incr (ActGoTo (head prd) stateBeforeGoto nextState)
                  (GotoExpl nextState (head prd)) tokens
                  (st4\<lparr>symbols := symbols st4 @ [Some (head prd)],
                       nodeStack := nodeStack st4 @ [newNode],
                       stack := stack st4 @ [nextState]\<rparr>)))"

text \<open>The loop body. An inherited value read as the action is truthy and its \<open>type\<close> is
  none of the three strings, so no branch is taken and the pass ends with nothing changed.\<close>

definition sim_iteration ::
  "grammar \<Rightarrow> parsing_table \<Rightarrow> symbol list \<Rightarrow> sim_state \<Rightarrow> sim_state outcome" where
  "sim_iteration g tbl tokens st =
     (let currentState = last_opt (stack st);
          lookahead = nth_opt tokens (inputIdx st)
      in case lookup_action tbl currentState lookahead of
           None \<Rightarrow> Break (push_step ActError (SyntaxError currentState lookahead) tokens st)
         | Some (Inherited _) \<Rightarrow> Continue st
         | Some (Val (Shift nextState)) \<Rightarrow> Continue (do_shift tokens lookahead nextState st)
         | Some (Val (Reduce prodId)) \<Rightarrow>
             (case find_production g prodId of
                None \<Rightarrow> Throw st
              | Some prd \<Rightarrow> do_reduce tbl tokens prd st)
         | Some (Val Accept) \<Rightarrow> Break (push_step ActAccept AcceptExpl tokens st))"

text \<open>
  The \<open>while (stepCount < MAX_STEPS)\<close> loop inside \<open>try\<close>, with the \<open>catch\<close> clause that
  appends one \<open>'Error'\<close> step. The loop is left in one of three ways: by \<open>break\<close>, by an exception
  that the \<open>catch\<close> clause handles, or because the counter reached the ceiling. The first
  component of the result records which; the code has no such value, and the returned steps
  do not depend on it. A pass that changes nothing is repeated for ever, so the result is
  optional.
\<close>

datatype exit_reason = ByBreak | ByCatch | ByCeiling

partial_function (option) sim_loop ::
  "grammar \<Rightarrow> parsing_table \<Rightarrow> symbol list \<Rightarrow> sim_state \<Rightarrow> (exit_reason \<times> sim_state) option"
  where
  "sim_loop g tbl tokens st =
     (if stepCount st < MAX_STEPS then
        (case sim_iteration g tbl tokens st of
           Continue st' \<Rightarrow> sim_loop g tbl tokens st'
         | Break st' \<Rightarrow> Some (ByBreak, st')
         | Throw st' \<Rightarrow> Some (ByCatch, push_step ActError RuntimeError tokens st'))
      else Some (ByCeiling, st))"

declare sim_loop.simps [code]

definition simulateParsing ::
  "nat list \<Rightarrow> grammar \<Rightarrow> parsing_table \<Rightarrow> sim_opts option \<Rightarrow> parse_step list option" where
  "simulateParsing inputStr g tbl opts =
     (case tokenize g inputStr of
        None \<Rightarrow> None
      | Some tokens \<Rightarrow>
          (case sim_loop g tbl tokens (init_state opts) of
             None \<Rightarrow> None
           | Some (reason, st) \<Rightarrow> Some (steps st)))"

section \<open>LR(0) items and the automaton\<close>

text \<open>The declarations of \<open>LRItem\<close>, \<open>ItemSet\<close> and \<open>State\<close> are not among the sources; an item set
  is an array of items, and a state's \<open>transitions\<close> object is kept as the list of its entries
  in insertion order.\<close>

text \<open>
  Reading a property of \<open>undefined\<close> throws a \<open>TypeError\<close>; none of the functions of this
  section catches it, so they return either the error or their value.
\<close>

datatype error = TypeError

record lr_item =
  productionId :: nat
  dotPosition :: nat

record dfa_state =
  state_id :: nat
  items :: "lr_item list"
  transitions :: "(symbol \<times> nat) list"

text \<open>The comparator of \<open>areItemSetsEqual\<close> orders items by production id, then by dot
  position.\<close>

definition areItemsEqual :: "lr_item \<Rightarrow> lr_item \<Rightarrow> bool" where
  "areItemsEqual a b \<longleftrightarrow> productionId a = productionId b \<and> dotPosition a = dotPosition b"

definition item_key :: "lr_item \<Rightarrow> nat \<times> nat" where
  "item_key x = (productionId x, dotPosition x)"

definition areItemSetsEqual :: "lr_item list \<Rightarrow> lr_item list \<Rightarrow> bool" where
  "areItemSetsEqual a b =
     (if length a \<noteq> length b then False
      else list_all2 areItemsEqual (sort_key item_key a) (sort_key item_key b))"

subsection \<open>Closure\<close>

text \<open>The callback of \<open>grammar.productions.forEach\<close> inside the closure loop.\<close>

definition add_closure_item ::
  "symbol \<Rightarrow> production \<Rightarrow> lr_item list \<times> bool \<Rightarrow> lr_item list \<times> bool" where
  "add_closure_item symbolAfterDot p acc =
     (case acc of (closure, changed) \<Rightarrow>
        if head p = symbolAfterDot then
          (let newItem = \<lparr>productionId = prod_id p, dotPosition = 0\<rparr>
           in if \<not> list_ex (\<lambda>it. areItemsEqual it newItem) closure
              then (closure @ [newItem], True)
              else (closure, changed))
        else (closure, changed))"

definition add_closure_items ::
  "grammar \<Rightarrow> symbol \<Rightarrow> lr_item list \<times> bool \<Rightarrow> lr_item list \<times> bool" where
  "add_closure_items g symbolAfterDot acc =
     fold (add_closure_item symbolAfterDot) (productions g) acc"

text \<open>The number of production ids for which the closure has no item with the dot at 0; it
  bounds the items the loops can still add.\<close>

definition missing_ids :: "grammar \<Rightarrow> lr_item list \<Rightarrow> nat" where
  "missing_ids g closure =
     card (prod_id ` set (productions g)
            - productionId ` {it \<in> set closure. dotPosition it = 0})"

lemma areItemsEqual_eq: "areItemsEqual a b \<longleftrightarrow> a = b"
  by (auto simp: areItemsEqual_def)

lemma missing_ids_add:
  assumes "p \<in> set (productions g)"
    and "\<lparr>productionId = prod_id p, dotPosition = 0\<rparr> \<notin> set closure"
  shows "Suc (missing_ids g (closure @ [\<lparr>productionId = prod_id p, dotPosition = 0\<rparr>])) =
         missing_ids g closure"
proof -
  let ?ids = "prod_id ` set (productions g)"
  let ?have = "productionId ` {it \<in> set closure. dotPosition it = 0}"
  have notin: "prod_id p \<notin> ?have"
  proof
    assume "prod_id p \<in> ?have"
    then obtain it where "it \<in> set closure" "dotPosition it = 0" "productionId it = prod_id p"
      by auto
    then have "it = \<lparr>productionId = prod_id p, dotPosition = 0\<rparr>" by simp
    with \<open>it \<in> set closure\<close> assms(2) show False by simp
  qed
  have "{it \<in> set (closure @ [\<lparr>productionId = prod_id p, dotPosition = 0\<rparr>]).
      dotPosition it = 0} =
      insert \<lparr>productionId = prod_id p, dotPosition = 0\<rparr> {it \<in> set closure. dotPosition it = 0}"
    by auto
  then have eq: "productionId ` {it \<in> set (closure @ [\<lparr>productionId = prod_id p, dotPosition = 0\<rparr>]).
      dotPosition it = 0} = insert (prod_id p) ?have"
    by simp
  have d: "?ids - insert (prod_id p) ?have = (?ids - ?have) - {prod_id p}"
    by auto
  have "finite (?ids - ?have)" by simp
  moreover have "prod_id p \<in> ?ids - ?have"
    using assms(1) notin by auto
  ultimately have "Suc (card ((?ids - ?have) - {prod_id p})) = card (?ids - ?have)"
    by (rule card_Suc_Diff1)
  then show ?thesis
    unfolding missing_ids_def eq d .
qed

lemma add_closure_item_new:
  assumes "head p = s" and "\<lparr>productionId = prod_id p, dotPosition = 0\<rparr> \<notin> set cl"
  shows "add_closure_item s p (cl, ch) =
           (cl @ [\<lparr>productionId = prod_id p, dotPosition = 0\<rparr>], True)"
  using assms by (simp add: add_closure_item_def list_ex_iff areItemsEqual_eq Let_def)

lemma add_closure_item_old:
  assumes "\<not> (head p = s \<and> \<lparr>productionId = prod_id p, dotPosition = 0\<rparr> \<notin> set cl)"
  shows "add_closure_item s p (cl, ch) = (cl, ch)"
  using assms by (auto simp: add_closure_item_def list_ex_iff areItemsEqual_eq Let_def)

lemma add_closure_items_fold:
  assumes "set ps \<subseteq> set (productions g)"
    and "fold (add_closure_item s) ps (cl, ch) = (cl', ch')"
  shows "length cl' + missing_ids g cl' = length cl + missing_ids g cl
         \<and> prefix cl cl'
         \<and> (ch' \<longleftrightarrow> ch \<or> length cl < length cl')"
  using assms
proof (induction ps arbitrary: cl ch)
  case Nil
  then show ?case by simp
next
  case (Cons p ps)
  show ?case
  proof (cases "head p = s \<and> \<lparr>productionId = prod_id p, dotPosition = 0\<rparr> \<notin> set cl")
    case True
    then have f: "fold (add_closure_item s) ps
         (cl @ [\<lparr>productionId = prod_id p, dotPosition = 0\<rparr>], True) = (cl', ch')"
      using Cons.prems(2) by (simp add: add_closure_item_new)
    have "p \<in> set (productions g)" using Cons.prems(1) by simp
    from missing_ids_add [OF this] True
    have m: "Suc (missing_ids g (cl @ [\<lparr>productionId = prod_id p, dotPosition = 0\<rparr>])) =
        missing_ids g cl" by simp
    from Cons.IH [OF _ f] Cons.prems(1) m show ?thesis
      by (auto dest: append_prefixD prefix_length_le)
  next
    case False
    then have f: "fold (add_closure_item s) ps (cl, ch) = (cl', ch')"
      using Cons.prems(2) by (simp add: add_closure_item_old)
    from Cons.IH [OF _ f] Cons.prems(1) show ?thesis by auto
  qed
qed

lemma add_closure_items_measure:
  assumes "add_closure_items g s (cl, ch) = (cl', ch')"
  shows "length cl' + missing_ids g cl' = length cl + missing_ids g cl
         \<and> prefix cl cl'
         \<and> (ch' \<longleftrightarrow> ch \<or> length cl < length cl')"
  using add_closure_items_fold [of "productions g" g s cl ch cl' ch'] assms
  by (simp add: add_closure_items_def)

text \<open>The body of the \<open>for\<close> loop for one item whose production was found.\<close>

definition closure_item ::
  "grammar \<Rightarrow> production \<Rightarrow> lr_item \<Rightarrow> lr_item list \<times> bool \<Rightarrow> lr_item list \<times> bool" where
  "closure_item g prd item acc =
     (case nth_opt (body prd) (dotPosition item) of
        None \<Rightarrow> acc
      | Some symbolAfterDot \<Rightarrow>
          if symbolAfterDot \<in> set (nonTerminals g)
          then add_closure_items g symbolAfterDot acc
          else acc)"

lemma closure_item_measure:
  assumes "closure_item g prd item (cl, ch) = (cl', ch')"
  shows "length cl' + missing_ids g cl' = length cl + missing_ids g cl
         \<and> prefix cl cl'
         \<and> (ch' \<longleftrightarrow> ch \<or> length cl < length cl')"
  using assms add_closure_items_measure [of g _ cl ch cl' ch']
  by (auto simp: closure_item_def split: option.splits if_splits)

text \<open>The \<open>for\<close> loop over the growing array: items pushed during a pass are visited in the
  same pass.\<close>

function closure_for ::
  "grammar \<Rightarrow> nat \<Rightarrow> lr_item list \<Rightarrow> bool \<Rightarrow> error + (lr_item list \<times> bool)" where
  "closure_for g i closure changed =
     (if i < length closure then
        (case find_production g (productionId (closure ! i)) of
           None \<Rightarrow> Inl TypeError
         | Some prd \<Rightarrow>
             (case closure_item g prd (closure ! i) (closure, changed) of
                (closure', changed') \<Rightarrow> closure_for g (i + 1) closure' changed'))
      else Inr (closure, changed))"
  by pat_completeness auto
termination
proof (relation "measure (\<lambda>(g, i, closure, changed).
    2 * missing_ids g closure + (length closure - i))", goal_cases)
  case 1
  then show ?case by simp
next
  case (2 g i closure changed prd closure' changed')
  then have e: "closure_item g prd (closure ! i) (closure, changed) = (closure', changed')"
    by simp
  from closure_item_measure [OF e]
  have "length closure' + missing_ids g closure' = length closure + missing_ids g closure"
    and "length closure \<le> length closure'"
    by (simp_all add: prefix_length_le)
  with \<open>i < length closure\<close> show ?case
    by simp
qed

declare closure_for.simps [simp del]

lemma closure_for_measure:
  "closure_for g i cl ch = Inr (cl', ch') \<Longrightarrow>
     length cl' + missing_ids g cl' = length cl + missing_ids g cl
     \<and> prefix cl cl'
     \<and> (ch' \<longleftrightarrow> ch \<or> length cl < length cl')"
proof (induction g i cl ch rule: closure_for.induct)
  case (1 g i closure changed)
  show ?case
  proof (cases "i < length closure")
    case False
    with "1.prems" show ?thesis by (simp add: closure_for.simps [of g i closure changed])
  next
    case True
    from "1.prems" True obtain prd where
      prd: "find_production g (productionId (closure ! i)) = Some prd"
      by (cases "find_production g (productionId (closure ! i))")
        (auto simp: closure_for.simps [of g i closure changed])
    obtain c2 h2 where a: "closure_item g prd (closure ! i) (closure, changed) = (c2, h2)"
      by (cases "closure_item g prd (closure ! i) (closure, changed)")
    have r: "closure_for g (i + 1) c2 h2 = Inr (cl', ch')"
      using "1.prems" True prd a by (simp add: closure_for.simps [of g i closure changed])
    from "1.IH" [OF True prd a [symmetric] r]
    have ih: "length cl' + missing_ids g cl' = length c2 + missing_ids g c2"
      "prefix c2 cl'" "ch' \<longleftrightarrow> h2 \<or> length c2 < length cl'"
      by simp_all
    from closure_item_measure [OF a]
    have m: "length c2 + missing_ids g c2 = length closure + missing_ids g closure"
      "prefix closure c2" "h2 \<longleftrightarrow> changed \<or> length closure < length c2"
      by simp_all
    from ih m show ?thesis
      by (auto dest: prefix_length_le intro: prefix_order.trans)
  qed
qed

text \<open>The \<open>while (changed)\<close> loop.\<close>

function getClosure_loop :: "grammar \<Rightarrow> lr_item list \<Rightarrow> error + lr_item list" where
  "getClosure_loop g closure =
     (case closure_for g 0 closure False of
        Inl e \<Rightarrow> Inl e
      | Inr (closure', changed) \<Rightarrow>
          if changed then getClosure_loop g closure' else Inr closure')"
  by pat_completeness auto
termination
proof (relation "measure (\<lambda>(g, closure). missing_ids g closure)", goal_cases)
  case 1
  then show ?case by simp
next
  case (2 g closure r closure' changed)
  then have "closure_for g 0 closure False = Inr (closure', True)" by simp
  from closure_for_measure [OF this] show ?case by simp
qed

declare getClosure_loop.simps [simp del]

definition getClosure :: "lr_item list \<Rightarrow> grammar \<Rightarrow> error + lr_item list" where
  "getClosure its g = getClosure_loop g its"


subsection \<open>Goto and the canonical collection\<close>

text \<open>The \<open>items.forEach\<close> of \<open>getGoto\<close>: the items whose symbol after the dot is the given one,
  advanced by one position.\<close>

fun goto_items :: "grammar \<Rightarrow> symbol \<Rightarrow> lr_item list \<Rightarrow> error + lr_item list" where
  "goto_items g s [] = Inr []"
| "goto_items g s (item # rest) =
     (case find_production g (productionId item) of
        None \<Rightarrow> Inl TypeError
      | Some prd \<Rightarrow>
          (case goto_items g s rest of
             Inl e \<Rightarrow> Inl e
           | Inr nextItems \<Rightarrow>
               if nth_opt (body prd) (dotPosition item) = Some s
               then Inr (item\<lparr>dotPosition := dotPosition item + 1\<rparr> # nextItems)
               else Inr nextItems))"

definition getGoto :: "lr_item list \<Rightarrow> symbol \<Rightarrow> grammar \<Rightarrow> error + lr_item list" where
  "getGoto its s g =
     (case goto_items g s its of
        Inl e \<Rightarrow> Inl e
      | Inr nextItems \<Rightarrow> getClosure nextItems g)"

text \<open>\<open>Array.prototype.findIndex\<close>, with \<open>None\<close> for \<open>-1\<close>.\<close>

fun findIndex :: "('a \<Rightarrow> bool) \<Rightarrow> 'a list \<Rightarrow> nat option" where
  "findIndex P [] = None"
| "findIndex P (x # xs) =
     (if P x then Some 0 else map_option Suc (findIndex P xs))"

text \<open>\<open>currentState.transitions[symbol] = target\<close>: an existing key keeps its place, a new key
  is added last, and a number assigned to \<open>__proto__\<close> is dropped.\<close>

definition set_transition :: "dfa_state \<Rightarrow> symbol \<Rightarrow> nat \<Rightarrow> dfa_state" where
  "set_transition st s target =
     (if s = PROTO then st
      else st\<lparr>transitions := AList.update s target (transitions st)\<rparr>)"

text \<open>The callback of \<open>allSymbols.forEach\<close> for the state at index \<open>i\<close>.\<close>

definition dfa_symbol :: "grammar \<Rightarrow> nat \<Rightarrow> symbol \<Rightarrow> dfa_state list \<Rightarrow> error + dfa_state list" where
  "dfa_symbol g i s states =
     (if s = DOLLAR \<or> s = EPS then Inr states
      else
        (case getGoto (items (states ! i)) s g of
           Inl e \<Rightarrow> Inl e
         | Inr nextItems \<Rightarrow>
             if length nextItems = 0 then Inr states
             else
               (case findIndex (\<lambda>st. areItemSetsEqual (items st) nextItems) states of
                  Some existingStateIndex \<Rightarrow>
                    Inr (states[i := set_transition (states ! i) s existingStateIndex])
                | None \<Rightarrow>
                    (let newStateId = length states;
                         states' = states @
                           [\<lparr>state_id = newStateId, items = nextItems, transitions = []\<rparr>]
                     in Inr (states'[i := set_transition (states' ! i) s newStateId])))))"

text \<open>A \<open>forEach\<close> whose callback may throw.\<close>

fun fold_err :: "('a \<Rightarrow> 's \<Rightarrow> error + 's) \<Rightarrow> 'a list \<Rightarrow> 's \<Rightarrow> error + 's" where
  "fold_err f [] s = Inr s"
| "fold_err f (x # xs) s = (case f x s of Inl e \<Rightarrow> Inl e | Inr s' \<Rightarrow> fold_err f xs s')"

text \<open>The \<open>while (i < states.length)\<close> loop over the growing state list. Nothing in the loop
  bounds it, so its result is optional.\<close>

partial_function (option) dfa_loop ::
  "grammar \<Rightarrow> symbol list \<Rightarrow> nat \<Rightarrow> dfa_state list \<Rightarrow> (error + dfa_state list) option" where
  "dfa_loop g allSymbols i states =
     (if i < length states then
        (case fold_err (dfa_symbol g i) allSymbols states of
           Inl e \<Rightarrow> Some (Inl e)
         | Inr states' \<Rightarrow> dfa_loop g allSymbols (i + 1) states')
      else Some (Inr states))"

declare dfa_loop.simps [code]

definition buildDFA :: "grammar \<Rightarrow> (error + dfa_state list) option" where
  "buildDFA g =
     (case productions g of
        [] \<Rightarrow> Some (Inl TypeError)
      | p0 # _ \<Rightarrow>
          (case getClosure [\<lparr>productionId = prod_id p0, dotPosition = 0\<rparr>] g of
             Inl e \<Rightarrow> Some (Inl e)
           | Inr initialItems \<Rightarrow>
               dfa_loop g (nonTerminals g @ terminals g) 0
                 [\<lparr>state_id = 0, items = initialItems, transitions = []\<rparr>]))"

section \<open>The SLR(1) table\<close>

text \<open>
  The declarations of \<open>FirstFollowSets\<close> and \<open>Conflict\<close> are not among the sources. The two
  tables are objects of objects, \<open>action[state][symbol]\<close> and \<open>goto[state][symbol]\<close>, and the
  FIRST and FOLLOW sets are objects of \<open>Set\<close>s.
\<close>

record first_follow =
  ff_first :: "symbol \<rightharpoonup> symbol list"
  ff_follow :: "symbol \<rightharpoonup> symbol list"

text \<open>
  Reading a dictionary of \<open>Set\<close>s. A \<open>Set\<close> assigned to \<open>__proto__\<close> is the prototype of the
  dictionary, which then inherits the properties of \<open>Set.prototype\<close> too (the names are those
  of ECMAScript 2025): its methods are functions, and its \<open>size\<close> is a getter that throws a
  \<open>TypeError\<close> when it is read through an object that is not a \<open>Set\<close>.
\<close>

definition set_prototype_methods :: "symbol list" where
  "set_prototype_methods =
     map asc [''add'', ''clear'', ''delete'', ''difference'', ''entries'', ''forEach'', ''has'',
       ''intersection'', ''isDisjointFrom'', ''isSubsetOf'', ''isSupersetOf'', ''keys'',
       ''symmetricDifference'', ''union'', ''values'']"

definition set_get ::
  "(symbol \<rightharpoonup> symbol list) \<Rightarrow> symbol \<Rightarrow> error + symbol list js_val option" where
  "set_get m k =
     (case m k of
        Some s \<Rightarrow> Inr (Some (Val s))
      | None \<Rightarrow>
          if m PROTO \<noteq> None \<and> k = asc ''size'' then Inl TypeError
          else if k \<in> set object_prototype_keys
            \<or> (m PROTO \<noteq> None \<and> k \<in> set set_prototype_methods)
          then Inr (Some (Inherited k))
          else Inr None)"

text \<open>
  Assigning a \<open>Set\<close> to a key. The sources are modules, hence strict code, in which assigning
  to a key that is inherited as a getter without a setter throws a \<open>TypeError\<close>; that is the
  key \<open>size\<close> once a \<open>Set\<close> is the prototype.
\<close>

definition set_put ::
  "(symbol \<rightharpoonup> symbol list) \<Rightarrow> symbol \<Rightarrow> symbol list \<Rightarrow> error + (symbol \<rightharpoonup> symbol list)" where
  "set_put m k v =
     (if m k = None \<and> m PROTO \<noteq> None \<and> k = asc ''size'' then Inl TypeError
      else Inr (m(k \<mapsto> v)))"

text \<open>Reading and writing a cell of the action table, and writing a cell of the goto table.
  The row of a state is created before any of its cells is read or written, so the case of a
  missing row does not arise in \<open>buildTable\<close>.\<close>

definition get_cell ::
  "(nat \<rightharpoonup> (symbol \<rightharpoonup> action_entry)) \<Rightarrow> nat \<Rightarrow> symbol \<Rightarrow> action_entry js_val option" where
  "get_cell tbl sid s = (case tbl sid of None \<Rightarrow> None | Some row \<Rightarrow> row_get row s)"

definition set_cell ::
  "(nat \<rightharpoonup> (symbol \<rightharpoonup> action_entry)) \<Rightarrow> nat \<Rightarrow> symbol \<Rightarrow> action_entry
    \<Rightarrow> (nat \<rightharpoonup> (symbol \<rightharpoonup> action_entry))" where
  "set_cell tbl sid s v =
     tbl(sid \<mapsto> (case tbl sid of None \<Rightarrow> Map.empty | Some row \<Rightarrow> row)(s \<mapsto> v))"

definition set_goto ::
  "(nat \<rightharpoonup> (symbol \<rightharpoonup> nat)) \<Rightarrow> nat \<Rightarrow> symbol \<Rightarrow> nat \<Rightarrow> (nat \<rightharpoonup> (symbol \<rightharpoonup> nat))" where
  "set_goto tbl sid s n =
     tbl(sid \<mapsto> num_put (case tbl sid of None \<Rightarrow> Map.empty | Some row \<Rightarrow> row) s n)"

text \<open>
  The callback over \<open>Object.entries(state.transitions)\<close>, the entries of \<open>transitions\<close>. An
  object has one entry for a key, so the entries have pairwise different keys, each writes its
  own cell, and the order in which the object lists them does not matter.
\<close>

definition install_transition ::
  "grammar \<Rightarrow> nat \<Rightarrow> symbol \<times> nat
    \<Rightarrow> (nat \<rightharpoonup> (symbol \<rightharpoonup> action_entry)) \<times> (nat \<rightharpoonup> (symbol \<rightharpoonup> nat))
    \<Rightarrow> (nat \<rightharpoonup> (symbol \<rightharpoonup> action_entry)) \<times> (nat \<rightharpoonup> (symbol \<rightharpoonup> nat))" where
  "install_transition g sid tr acc =
     (case (tr, acc) of ((s, nextStateId), (act, gt)) \<Rightarrow>
        if s \<in> set (terminals g) then (set_cell act sid s (Shift nextStateId), gt)
        else if s \<in> set (nonTerminals g) then (act, set_goto gt sid s nextStateId)
        else (act, gt))"

definition isComplete :: "lr_item \<Rightarrow> production \<Rightarrow> bool" where
  "isComplete item prd \<longleftrightarrow>
     dotPosition item = length (body prd) \<or> (length (body prd) = 1 \<and> body prd ! 0 = EPS)"

text \<open>\<open>existing.type === 'shift' ? 'Shift-Reduce' : 'Reduce-Reduce'\<close>.\<close>

definition conflict_kind_of :: "action_entry js_val \<Rightarrow> conflict_kind" where
  "conflict_kind_of existing =
     (case existing of Val (Shift _) \<Rightarrow> Shift_Reduce | _ \<Rightarrow> Reduce_Reduce)"

text \<open>Lines 30 to 40: \<open>Accept\<close> is stored whatever the cell holds.\<close>

definition install_accept ::
  "nat \<Rightarrow> (nat \<rightharpoonup> (symbol \<rightharpoonup> action_entry)) \<times> conflict list
    \<Rightarrow> (nat \<rightharpoonup> (symbol \<rightharpoonup> action_entry)) \<times> conflict list" where
  "install_accept sid acc =
     (case acc of (act, cs) \<Rightarrow>
        (set_cell act sid DOLLAR Accept,
         (case get_cell act sid DOLLAR of
            None \<Rightarrow> cs
          | Some existing \<Rightarrow>
              if existing \<noteq> Val Accept
              then cs @ [\<lparr>c_state = sid, c_symbol = DOLLAR,
                          c_type = conflict_kind_of existing, c_existing = existing,
                          c_new = Accept\<rparr>]
              else cs)))"

text \<open>Lines 45 to 73, the callback of \<open>follow.forEach\<close>.\<close>

definition reduce_candidate ::
  "nat \<Rightarrow> nat \<Rightarrow> symbol \<Rightarrow> (nat \<rightharpoonup> (symbol \<rightharpoonup> action_entry)) \<times> conflict list
    \<Rightarrow> (nat \<rightharpoonup> (symbol \<rightharpoonup> action_entry)) \<times> conflict list" where
  "reduce_candidate sid pid terminal acc =
     (case acc of (act, cs) \<Rightarrow>
        (case get_cell act sid terminal of
           Some existing \<Rightarrow>
             (let ty = conflict_kind_of existing;
                  isDuplicate = list_ex (\<lambda>c. c_state c = sid \<and> c_symbol c = terminal
                      \<and> entry_value (c_new c) = Some pid \<and> c_type c = ty) cs
              in (act,
                  if \<not> isDuplicate
                  then cs @ [\<lparr>c_state = sid, c_symbol = terminal, c_type = ty,
                              c_existing = existing, c_new = Reduce pid\<rparr>]
                  else cs))
         | None \<Rightarrow> (set_cell act sid terminal (Reduce pid), cs)))"

text \<open>The callback of \<open>state.items.forEach\<close>. An inherited value read as \<open>ff.follow[prod.head]\<close>
  is truthy and has no \<open>forEach\<close>, so calling it throws.\<close>

definition process_item ::
  "grammar \<Rightarrow> first_follow \<Rightarrow> nat \<Rightarrow> lr_item
    \<Rightarrow> (nat \<rightharpoonup> (symbol \<rightharpoonup> action_entry)) \<times> conflict list
    \<Rightarrow> error + (nat \<rightharpoonup> (symbol \<rightharpoonup> action_entry)) \<times> conflict list" where
  "process_item g ff sid item acc =
     (case find_production g (productionId item) of
        None \<Rightarrow> Inl TypeError
      | Some prd \<Rightarrow>
          if isComplete item prd then
            (if head prd = startSymbol g then Inr (install_accept sid acc)
             else
               (case set_get (ff_follow ff) (head prd) of
                  Inl e \<Rightarrow> Inl e
                | Inr None \<Rightarrow> Inr acc
                | Inr (Some (Inherited _)) \<Rightarrow> Inl TypeError
                | Inr (Some (Val fl)) \<Rightarrow>
                    Inr (fold (reduce_candidate sid (prod_id prd)) fl acc)))
          else Inr acc)"

text \<open>The callback of \<open>states.forEach\<close>.\<close>

definition build_state ::
  "grammar \<Rightarrow> first_follow \<Rightarrow> dfa_state
    \<Rightarrow> (nat \<rightharpoonup> (symbol \<rightharpoonup> action_entry)) \<times> (nat \<rightharpoonup> (symbol \<rightharpoonup> nat)) \<times> conflict list
    \<Rightarrow> error + (nat \<rightharpoonup> (symbol \<rightharpoonup> action_entry)) \<times> (nat \<rightharpoonup> (symbol \<rightharpoonup> nat)) \<times> conflict list"
  where
  "build_state g ff st acc =
     (case acc of (act, gt, cs) \<Rightarrow>
        (let act0 = act(state_id st \<mapsto> Map.empty);
             gt0 = gt(state_id st \<mapsto> Map.empty);
             (act1, gt1) = fold (install_transition g (state_id st)) (transitions st) (act0, gt0)
         in case fold_err (process_item g ff (state_id st)) (items st) (act1, cs) of
              Inl e \<Rightarrow> Inl e
            | Inr (act2, cs2) \<Rightarrow> Inr (act2, gt1, cs2)))"

definition buildTable :: "grammar \<Rightarrow> dfa_state list \<Rightarrow> first_follow \<Rightarrow> error + parsing_table" where
  "buildTable g states ff =
     (case fold_err (build_state g ff) states (Map.empty, Map.empty, []) of
        Inl e \<Rightarrow> Inl e
      | Inr (act, gt, cs) \<Rightarrow>
          Inr \<lparr>action = act, goto = gt, table_terminals = terminals g,
               table_nonTerminals = filter (\<lambda>nt. nt \<noteq> startSymbol g) (nonTerminals g),
               conflicts = cs\<rparr>)"

section \<open>FIRST and FOLLOW sets\<close>

text \<open>The two \<open>while (changed)\<close> loops have no bound of their own, so their results are
  optional; a set is the list of its members in insertion order, and its \<open>size\<close> is the length
  of the list.\<close>

text \<open>Lines 101 to 103: every nonterminal starts with empty sets, every terminal with itself
  as its FIRST set. The pair is (\<open>first\<close>, \<open>follow\<close>).\<close>

definition init_nonTerminal ::
  "symbol \<Rightarrow> (symbol \<rightharpoonup> symbol list) \<times> (symbol \<rightharpoonup> symbol list)
    \<Rightarrow> error + (symbol \<rightharpoonup> symbol list) \<times> (symbol \<rightharpoonup> symbol list)" where
  "init_nonTerminal nt acc =
     (case acc of (fs, fl) \<Rightarrow>
        (case set_put fs nt [] of
           Inl e \<Rightarrow> Inl e
         | Inr fs' \<Rightarrow> (case set_put fl nt [] of Inl e \<Rightarrow> Inl e | Inr fl' \<Rightarrow> Inr (fs', fl'))))"

definition init_terminal ::
  "symbol \<Rightarrow> (symbol \<rightharpoonup> symbol list) \<times> (symbol \<rightharpoonup> symbol list)
    \<Rightarrow> error + (symbol \<rightharpoonup> symbol list) \<times> (symbol \<rightharpoonup> symbol list)" where
  "init_terminal t acc =
     (case acc of (fs, fl) \<Rightarrow>
        (case set_put fs t [t] of Inl e \<Rightarrow> Inl e | Inr fs' \<Rightarrow> Inr (fs', fl)))"

definition init_sets ::
  "grammar \<Rightarrow> error + (symbol \<rightharpoonup> symbol list) \<times> (symbol \<rightharpoonup> symbol list)" where
  "init_sets g =
     (case fold_err init_nonTerminal (nonTerminals g) (Map.empty, Map.empty) of
        Inl e \<Rightarrow> Inl e
      | Inr acc \<Rightarrow>
          (case fold_err init_terminal (terminals g) acc of
             Inl e \<Rightarrow> Inl e
           | Inr acc' \<Rightarrow> init_terminal EPS acc'))"

text \<open>\<open>sets[k].add(x)\<close> for a set object that exists.\<close>

definition add_elem :: "(symbol \<rightharpoonup> symbol list) \<Rightarrow> symbol \<Rightarrow> symbol \<Rightarrow> (symbol \<rightharpoonup> symbol list)" where
  "add_elem m k x = (case m k of None \<Rightarrow> m | Some s \<Rightarrow> m(k \<mapsto> set_add x s))"

text \<open>\<open>src.forEach(f => { if (f !== EPS) sets[k].add(f); })\<close>: the members of a set other than
  the empty marker are added to \<open>sets[k]\<close>.\<close>

definition add_all_but_eps ::
  "(symbol \<rightharpoonup> symbol list) \<Rightarrow> symbol \<Rightarrow> symbol list \<Rightarrow> (symbol \<rightharpoonup> symbol list)" where
  "add_all_but_eps m k src = fold (\<lambda>f m'. if f \<noteq> EPS then add_elem m' k f else m') src m"

text \<open>The same when \<open>sets[k]\<close> need not be a \<open>Set\<close>: an inherited value has no \<open>add\<close>, so the
  first member to be added throws. The flag says whether \<open>sets[k]\<close> is a \<open>Set\<close>.\<close>

definition add_members ::
  "bool \<Rightarrow> (symbol \<rightharpoonup> symbol list) \<Rightarrow> symbol \<Rightarrow> symbol list
    \<Rightarrow> error + (symbol \<rightharpoonup> symbol list)" where
  "add_members is_set m k src =
     (if is_set then Inr (add_all_but_eps m k src)
      else if list_ex (\<lambda>f. f \<noteq> EPS) src then Inl TypeError
      else Inr m)"

text \<open>\<open>first[symbol] || new Set([symbol])\<close>, which is then iterated: a symbol without a FIRST
  set stands for itself, and an inherited value has no \<open>forEach\<close>.\<close>

definition first_or_self :: "(symbol \<rightharpoonup> symbol list) \<Rightarrow> symbol \<Rightarrow> error + symbol list" where
  "first_or_self fs s =
     (case set_get fs s of
        Inl e \<Rightarrow> Inl e
      | Inr None \<Rightarrow> Inr [s]
      | Inr (Some (Val f)) \<Rightarrow> Inr f
      | Inr (Some (Inherited _)) \<Rightarrow> Inl TypeError)"

text \<open>\<open>sets[k].size\<close> when \<open>sets[k]\<close> is a \<open>Set\<close> or an inherited value: the latter has no \<open>size\<close>,
  and \<open>None\<close> is \<open>undefined\<close>.\<close>

definition size_of :: "(symbol \<rightharpoonup> symbol list) \<Rightarrow> symbol \<Rightarrow> nat option" where
  "size_of m k = map_option length (m k)"

subsection \<open>FIRST\<close>

text \<open>The \<open>for (const symbol of p.body)\<close> loop; the second component is \<open>allNullable\<close>.\<close>

fun first_body ::
  "bool \<Rightarrow> (symbol \<rightharpoonup> symbol list) \<Rightarrow> symbol \<Rightarrow> symbol list
    \<Rightarrow> error + (symbol \<rightharpoonup> symbol list) \<times> bool" where
  "first_body is_set m h [] = Inr (m, True)"
| "first_body is_set m h (s # rest) =
     (case first_or_self m s of
        Inl e \<Rightarrow> Inl e
      | Inr symbolFirst \<Rightarrow>
          (case add_members is_set m h symbolFirst of
             Inl e \<Rightarrow> Inl e
           | Inr m' \<Rightarrow>
               if EPS \<notin> set symbolFirst then Inr (m', False)
               else first_body is_set m' h rest))"

text \<open>The callback of \<open>grammar.productions.forEach\<close> in the first phase. Reading \<open>size\<close> of
  \<open>undefined\<close> throws.\<close>

definition first_production ::
  "production \<Rightarrow> (symbol \<rightharpoonup> symbol list) \<times> bool \<Rightarrow> error + (symbol \<rightharpoonup> symbol list) \<times> bool" where
  "first_production p acc =
     (case acc of (m, changed) \<Rightarrow>
        (case set_get m (head p) of
           Inl e \<Rightarrow> Inl e
         | Inr None \<Rightarrow> Inl TypeError
         | Inr (Some hv) \<Rightarrow>
             (let beforeSize = size_of m (head p) in
              case first_body (is_val hv) m (head p) (body p) of
                Inl e \<Rightarrow> Inl e
              | Inr (m1, allNullable) \<Rightarrow>
                  (case (if allNullable
                         then (if is_val hv then Inr (add_elem m1 (head p) EPS)
                               else Inl TypeError)
                         else Inr m1) of
                     Inl e \<Rightarrow> Inl e
                   | Inr m2 \<Rightarrow>
                       Inr (m2, if size_of m2 (head p) \<noteq> beforeSize then True else changed)))))"

partial_function (option) first_loop ::
  "grammar \<Rightarrow> (symbol \<rightharpoonup> symbol list) \<Rightarrow> (error + (symbol \<rightharpoonup> symbol list)) option" where
  "first_loop g m =
     (case fold_err first_production (productions g) (m, False) of
        Inl e \<Rightarrow> Some (Inl e)
      | Inr (m', changed) \<Rightarrow> if changed then first_loop g m' else Some (Inr m'))"

declare first_loop.simps [code]

subsection \<open>FOLLOW\<close>

text \<open>The \<open>for (const sym of beta)\<close> loop; the second component is \<open>betaIsNullable\<close>.\<close>

fun follow_beta ::
  "bool \<Rightarrow> (symbol \<rightharpoonup> symbol list) \<Rightarrow> (symbol \<rightharpoonup> symbol list) \<Rightarrow> symbol \<Rightarrow> symbol list
    \<Rightarrow> error + (symbol \<rightharpoonup> symbol list) \<times> bool" where
  "follow_beta is_set fs m B [] = Inr (m, True)"
| "follow_beta is_set fs m B (s # rest) =
     (case first_or_self fs s of
        Inl e \<Rightarrow> Inl e
      | Inr symFirst \<Rightarrow>
          (case add_members is_set m B symFirst of
             Inl e \<Rightarrow> Inl e
           | Inr m' \<Rightarrow>
               if EPS \<notin> set symFirst then Inr (m', False)
               else follow_beta is_set fs m' B rest))"

text \<open>\<open>follow[head].forEach(f => { if (f !== EPS) follow[B].add(f); })\<close>: whatever
  \<open>follow[head]\<close> is, if not a \<open>Set\<close>, the call throws.\<close>

definition add_follow_of_head ::
  "bool \<Rightarrow> (symbol \<rightharpoonup> symbol list) \<Rightarrow> symbol \<Rightarrow> symbol \<Rightarrow> error + (symbol \<rightharpoonup> symbol list)" where
  "add_follow_of_head is_set m B h =
     (case set_get m h of
        Inr (Some (Val hs)) \<Rightarrow> add_members is_set m B hs
      | _ \<Rightarrow> Inl TypeError)"

text \<open>The body of the \<open>for (let i = 0; i < body.length; i++)\<close> loop.\<close>

definition follow_position ::
  "grammar \<Rightarrow> (symbol \<rightharpoonup> symbol list) \<Rightarrow> production \<Rightarrow> nat
    \<Rightarrow> (symbol \<rightharpoonup> symbol list) \<times> bool \<Rightarrow> error + (symbol \<rightharpoonup> symbol list) \<times> bool" where
  "follow_position g fs p i acc =
     (case acc of (m, changed) \<Rightarrow>
        (let B = body p ! i in
         if B \<notin> set (nonTerminals g) then Inr (m, changed)
         else
           (case set_get m B of
              Inl e \<Rightarrow> Inl e
            | Inr None \<Rightarrow> Inl TypeError
            | Inr (Some bv) \<Rightarrow>
                (let beforeSize = size_of m B in
                 case follow_beta (is_val bv) fs m B (drop (i + 1) (body p)) of
                   Inl e \<Rightarrow> Inl e
                 | Inr (m1, betaIsNullable) \<Rightarrow>
                     (case (if betaIsNullable then add_follow_of_head (is_val bv) m1 B (head p)
                            else Inr m1) of
                        Inl e \<Rightarrow> Inl e
                      | Inr m2 \<Rightarrow>
                          Inr (m2, if size_of m2 B \<noteq> beforeSize then True else changed))))))"

definition follow_production ::
  "grammar \<Rightarrow> (symbol \<rightharpoonup> symbol list) \<Rightarrow> production
    \<Rightarrow> (symbol \<rightharpoonup> symbol list) \<times> bool \<Rightarrow> error + (symbol \<rightharpoonup> symbol list) \<times> bool" where
  "follow_production g fs p acc = fold_err (follow_position g fs p) [0 ..< length (body p)] acc"

partial_function (option) follow_loop ::
  "grammar \<Rightarrow> (symbol \<rightharpoonup> symbol list) \<Rightarrow> (symbol \<rightharpoonup> symbol list)
    \<Rightarrow> (error + (symbol \<rightharpoonup> symbol list)) option" where
  "follow_loop g fs m =
     (case fold_err (follow_production g fs) (productions g) (m, False) of
        Inl e \<Rightarrow> Some (Inl e)
      | Inr (m', changed) \<Rightarrow> if changed then follow_loop g fs m' else Some (Inr m'))"

declare follow_loop.simps [code]

text \<open>\<open>sets[k].add(x)\<close> where \<open>sets[k]\<close> may be anything: only a \<open>Set\<close> has \<open>add\<close>.\<close>

definition add_to ::
  "(symbol \<rightharpoonup> symbol list) \<Rightarrow> symbol \<Rightarrow> symbol \<Rightarrow> error + (symbol \<rightharpoonup> symbol list)" where
  "add_to m k x =
     (case set_get m k of
        Inr (Some (Val s)) \<Rightarrow> Inr (add_elem m k x)
      | _ \<Rightarrow> Inl TypeError)"

text \<open>Lines 122 to 124. \<open>endsWith("'")\<close> looks at the last code unit, and \<open>if (userStart)\<close> is
  false for \<open>undefined\<close> and for the empty string.\<close>

definition seed_follow ::
  "grammar \<Rightarrow> (symbol \<rightharpoonup> symbol list) \<Rightarrow> error + (symbol \<rightharpoonup> symbol list)" where
  "seed_follow g m0 =
     (case add_to m0 (startSymbol g) DOLLAR of
        Inl e \<Rightarrow> Inl e
      | Inr m1 \<Rightarrow>
          (case find (\<lambda>nt. \<not> (nt \<noteq> [] \<and> last nt = 39)) (nonTerminals g) of
             None \<Rightarrow> Inr m1
           | Some userStart \<Rightarrow>
               if userStart \<noteq> [] then add_to m1 userStart DOLLAR else Inr m1))"

definition computeFirstFollow :: "grammar \<Rightarrow> (error + first_follow) option" where
  "computeFirstFollow g =
     (case init_sets g of
        Inl e \<Rightarrow> Some (Inl e)
      | Inr (first0, follow0) \<Rightarrow>
          (case first_loop g first0 of
             None \<Rightarrow> None
           | Some (Inl e) \<Rightarrow> Some (Inl e)
           | Some (Inr fs) \<Rightarrow>
               (case seed_follow g follow0 of
                  Inl e \<Rightarrow> Some (Inl e)
                | Inr m \<Rightarrow>
                    (case follow_loop g fs m of
                       None \<Rightarrow> None
                     | Some (Inl e) \<Rightarrow> Some (Inl e)
                     | Some (Inr fl) \<Rightarrow> Some (Inr \<lparr>ff_first = fs, ff_follow = fl\<rparr>)))))"

section \<open>Grammar augmentation: properties\<close>

text \<open>A grammar in which the primed start symbol is already a nonterminal:
  \<open>S \<rightarrow> S' a\<close>, \<open>S' \<rightarrow> b\<close>.\<close>

definition g_clash :: grammar where
  "g_clash =
     \<lparr>productions =
        [\<lparr>prod_id = 0, head = asc ''S'', body = [asc ''S'' @ [39], asc ''a'']\<rparr>,
         \<lparr>prod_id = 1, head = asc ''S'' @ [39], body = [asc ''b'']\<rparr>],
      terminals = [asc ''a'', asc ''b'', DOLLAR],
      nonTerminals = [asc ''S'', asc ''S'' @ [39]],
      startSymbol = asc ''S''\<rparr>"

text \<open>The grammar \<open>S \<rightarrow> a S | b\<close>.\<close>

definition g_ab :: grammar where
  "g_ab =
     \<lparr>productions =
        [\<lparr>prod_id = 0, head = asc ''S'', body = [asc ''a'', asc ''S'']\<rparr>,
         \<lparr>prod_id = 1, head = asc ''S'', body = [asc ''b'']\<rparr>],
      terminals = [asc ''a'', asc ''b'', DOLLAR],
      nonTerminals = [asc ''S''],
      startSymbol = asc ''S''\<rparr>"

text \<open>
  C7: the new start symbol is the old one with an apostrophe appended, and nothing checks
  that this name is unused. For \<open>g_clash\<close> the start symbol of the augmented grammar is \<open>S'\<close>,
  which is a nonterminal of \<open>g_clash\<close> with a production of its own; the augmented grammar
  has two productions with that head, \<open>S' \<rightarrow> S\<close> and \<open>S' \<rightarrow> b\<close>.
\<close>

theorem augment_fresh_counterexample:
  "startSymbol (augmentGrammar g_clash) = asc ''S'' @ [39]
   \<and> startSymbol (augmentGrammar g_clash) \<in> set (nonTerminals g_clash)
   \<and> startSymbol (augmentGrammar g_clash) \<in> set (grammar_symbols g_clash)
   \<and> map (\<lambda>p. (head p, body p)) (productions (augmentGrammar g_clash)) =
       [(asc ''S'' @ [39], [asc ''S'']),
        (asc ''S'', [asc ''S'' @ [39], asc ''a'']),
        (asc ''S'' @ [39], [asc ''b''])]"
  by (simp add: augmentGrammar_def g_clash_def asc_def Let_def grammar_symbols_def)

text \<open>
  What holds of every grammar \<open>G\<close> with start symbol \<open>S\<close>: the augmented grammar has exactly one
  more production; its new start symbol is \<open>S\<close> followed by an apostrophe; the production at
  position 0 has id 0, the new start symbol as head and body \<open>[S]\<close>, and is the production found
  under id 0; every original production appears one position later with head and body
  unchanged and its id set to its old position plus one.
\<close>

lemma augmentGrammar_shape:
  "length (productions (augmentGrammar g)) = length (productions g) + 1
   \<and> startSymbol (augmentGrammar g) = startSymbol g @ [39]
   \<and> productions (augmentGrammar g) ! 0 =
       \<lparr>prod_id = 0, head = startSymbol (augmentGrammar g), body = [startSymbol g]\<rparr>
   \<and> find_production (augmentGrammar g) 0 = Some (productions (augmentGrammar g) ! 0)
   \<and> (\<forall>i < length (productions g).
         productions (augmentGrammar g) ! (i + 1) = (productions g ! i)\<lparr>prod_id := i + 1\<rparr>)"
  by (simp add: augmentGrammar_def Let_def find_production_def)

section \<open>Initial stacks of the simulator: properties\<close>

lemma stack_init_state: "stack (init_state opts) = map Val (fst (init_stacks opts))"
  by (simp add: init_state_def Let_def split: prod.splits)

lemma symbols_init_state: "symbols (init_state opts) = snd (init_stacks opts)"
  by (simp add: init_state_def Let_def split: prod.splits)

text \<open>
  C9: when the given state stack and symbol stack differ in length, the configuration the
  execution loop starts from holds the shorter one padded on the left, the symbol stack with
  \<open>'$'\<close> and the state stack with state 0, and the two have the same length.
\<close>

theorem init_stacks_padding:
  assumes "length stk \<noteq> length syms"
  shows "stack (init_state (Some \<lparr>initialStack = Some stk, initialSymbols = Some syms\<rparr>)) =
           map Val (replicate (length syms - length stk) 0 @ stk)
         \<and> symbols (init_state (Some \<lparr>initialStack = Some stk, initialSymbols = Some syms\<rparr>)) =
           replicate (length stk - length syms) (Some DOLLAR) @ map Some syms
         \<and> length (stack (init_state (Some \<lparr>initialStack = Some stk, initialSymbols = Some syms\<rparr>))) =
           length (symbols (init_state (Some \<lparr>initialStack = Some stk, initialSymbols = Some syms\<rparr>)))"
  using assms
  by (cases stk; cases syms)
    (auto simp: stack_init_state symbols_init_state init_stacks_def init_stack_def
      given_symbols_def Let_def replicate_append_same)

theorem init_stacks_padding_witness:
  "stack (init_state (Some \<lparr>initialStack = Some [4],
       initialSymbols = Some [asc ''a'', asc ''b'', asc ''c'']\<rparr>)) = [Val 0, Val 0, Val 4]
   \<and> symbols (init_state (Some \<lparr>initialStack = Some [4],
       initialSymbols = Some [asc ''a'', asc ''b'', asc ''c'']\<rparr>)) =
       [Some (asc ''a''), Some (asc ''b''), Some (asc ''c'')]"
  using init_stacks_padding [of "[4]" "[asc ''a'', asc ''b'', asc ''c'']"]
  by (simp add: numeral_3_eq_3)

section \<open>Tokenization: properties\<close>

text \<open>
  The tokenization the specification describes, as a relation between the remaining input
  (white space already stripped by \<open>trim\<close>) and the tokens produced from it: at each position
  the token is a longest terminal, other than the two markers, that is a prefix of the
  remaining input; when no terminal is a prefix, the token is the first character.
\<close>

definition candidate :: "grammar \<Rightarrow> symbol \<Rightarrow> bool" where
  "candidate g t \<longleftrightarrow> t \<in> set (terminals g) \<and> t \<noteq> DOLLAR \<and> t \<noteq> EPS"

definition longest_prefix_terminal :: "grammar \<Rightarrow> nat list \<Rightarrow> symbol \<Rightarrow> bool" where
  "longest_prefix_terminal g rest t \<longleftrightarrow>
     candidate g t \<and> prefix t rest
     \<and> (\<forall>u \<in> set (terminals g). candidate g u \<and> prefix u rest \<longrightarrow> length u \<le> length t)"

inductive greedy_tokens :: "grammar \<Rightarrow> nat list \<Rightarrow> symbol list \<Rightarrow> bool" for g where
  tok_done: "greedy_tokens g [] []"
| tok_match: "rest \<noteq> [] \<Longrightarrow> longest_prefix_terminal g rest t \<Longrightarrow>
     greedy_tokens g (trim (drop (length t) rest)) toks \<Longrightarrow> greedy_tokens g rest (t # toks)"
| tok_single: "rest \<noteq> [] \<Longrightarrow> \<forall>u \<in> set (terminals g). candidate g u \<longrightarrow> \<not> prefix u rest \<Longrightarrow>
     greedy_tokens g (trim (drop 1 rest)) toks \<Longrightarrow> greedy_tokens g rest ([hd rest] # toks)"

subsection \<open>The loop against the specification\<close>

lemma length_trim: "length (trim s) \<le> length s"
proof -
  have "length (dropWhile is_js_space (rev (dropWhile is_js_space s)))
      \<le> length (rev (dropWhile is_js_space s))"
    by (rule length_dropWhile_le)
  also have "\<dots> \<le> length s"
    by (simp add: length_dropWhile_le)
  finally show ?thesis
    by (simp add: trim_def)
qed

lemma hd_trim: "trim s \<noteq> [] \<Longrightarrow> \<not> is_js_space (hd (trim s))"
proof -
  assume ne: "trim s \<noteq> []"
  define s' where "s' = dropWhile is_js_space s"
  have tr: "trim s = rev (dropWhile is_js_space (rev s'))"
    by (simp add: trim_def s'_def)
  have s'ne: "s' \<noteq> []"
  proof
    assume "s' = []"
    with tr ne show False by simp
  qed
  then have h: "\<not> is_js_space (hd s')"
    unfolding s'_def by (metis hd_dropWhile)
  obtain c cs where s': "s' = c # cs" using s'ne by (cases s') auto
  have "trim s = rev (dropWhile is_js_space (rev cs @ [c]))"
    by (simp add: trim_def s'_def [symmetric] s')
  also have "\<dots> = c # rev (dropWhile is_js_space (rev cs))"
    using h s' by (simp add: dropWhile_append3)
  finally show ?thesis using h s' by simp
qed

lemma startsWith_prefix: "startsWith s t \<longleftrightarrow> prefix t s"
  by (metis startsWith_def append_eq_conv_conj prefix_def take_is_prefix)

lemma set_sortedTerminals: "t \<in> set (sortedTerminals g) \<longleftrightarrow> candidate g t"
  by (auto simp: sortedTerminals_def candidate_def)

lemma find_sorted_longest:
  assumes "sorted (map f xs)" and "find P xs = Some x" and "y \<in> set xs" and "P y"
  shows "f x \<le> f y"
  using assms
proof (induction xs)
  case Nil
  then show ?case by simp
next
  case (Cons a xs)
  then show ?case by (auto split: if_splits)
qed

lemma find_longest_prefix_terminal:
  assumes "find (\<lambda>t. startsWith rest t) (sortedTerminals g) = Some t"
  shows "longest_prefix_terminal g rest t"
proof -
  have mem: "t \<in> set (sortedTerminals g)" and pre: "startsWith rest t"
    using assms by (auto simp: find_Some_iff)
  have srt: "sorted (map (\<lambda>t. - int (length t)) (sortedTerminals g))"
    by (simp add: sortedTerminals_def)
  have "length u \<le> length t" if "candidate g u" "prefix u rest" for u
    using find_sorted_longest [OF srt assms, of u] that
    by (simp add: set_sortedTerminals startsWith_prefix)
  then show ?thesis
    using mem pre by (simp add: longest_prefix_terminal_def set_sortedTerminals startsWith_prefix)
qed

lemma find_no_prefix_terminal:
  assumes "find (\<lambda>t. startsWith rest t) (sortedTerminals g) = None"
  shows "\<forall>u \<in> set (terminals g). candidate g u \<longrightarrow> \<not> prefix u rest"
  using assms by (auto simp: find_None_iff set_sortedTerminals startsWith_prefix)

lemma tokenize_loop_greedy:
  assumes "[] \<notin> set (terminals g)" and "rest = [] \<or> \<not> is_js_space (hd rest)"
  shows "\<exists>toks. tokenize_loop (sortedTerminals g) rest acc = Some (acc @ toks)
           \<and> greedy_tokens g rest toks"
  using assms(2)
proof (induction "length rest" arbitrary: rest acc rule: less_induct)
  case less
  show ?case
  proof (cases "rest = []")
    case True
    then show ?thesis
      by (simp add: tokenize_loop.simps greedy_tokens.tok_done)
  next
    case False
    with less.prems have nsp: "\<not> is_js_space (hd rest)" by simp
    have sp32: "is_js_space 32" by (simp add: is_js_space_def)
    have nst: "\<not> startsWith rest [32]"
      using False nsp sp32 by (cases rest) (auto simp: startsWith_def)
    show ?thesis
    proof (cases "find (\<lambda>t. startsWith rest t) (sortedTerminals g)")
      case None
      let ?r = "trim (drop 1 rest)"
      have "length ?r < length rest"
        using False length_trim [of "drop 1 rest"] by (cases rest) auto
      moreover have "?r = [] \<or> \<not> is_js_space (hd ?r)"
        using hd_trim by blast
      ultimately obtain toks where
        t: "tokenize_loop (sortedTerminals g) ?r (acc @ [[rest ! 0]]) = Some ((acc @ [[rest ! 0]]) @ toks)"
        and gr: "greedy_tokens g ?r toks"
        using less.hyps by blast
      have "rest ! 0 = hd rest" using False by (simp add: hd_conv_nth)
      then have "greedy_tokens g rest ([rest ! 0] # toks)"
        using greedy_tokens.tok_single [OF False find_no_prefix_terminal [OF None] gr] by simp
      moreover have "tokenize_loop (sortedTerminals g) rest acc = Some (acc @ [rest ! 0] # toks)"
        using t False nst None by (subst tokenize_loop.simps) simp
      ultimately show ?thesis by blast
    next
      case (Some t)
      have lp: "longest_prefix_terminal g rest t"
        by (rule find_longest_prefix_terminal [OF Some])
      then have "t \<in> set (terminals g)"
        by (simp add: longest_prefix_terminal_def candidate_def)
      with assms(1) have tne: "t \<noteq> []" by auto
      let ?r = "trim (drop (length t) rest)"
      have "length ?r < length rest"
        using False tne length_trim [of "drop (length t) rest"]
        by (cases rest; cases t) auto
      moreover have "?r = [] \<or> \<not> is_js_space (hd ?r)"
        using hd_trim by blast
      ultimately obtain toks where
        t: "tokenize_loop (sortedTerminals g) ?r (acc @ [t]) = Some ((acc @ [t]) @ toks)"
        and gr: "greedy_tokens g ?r toks"
        using less.hyps by blast
      have "greedy_tokens g rest (t # toks)"
        by (rule greedy_tokens.tok_match [OF False lp gr])
      moreover have "tokenize_loop (sortedTerminals g) rest acc = Some (acc @ t # toks)"
        using t False nst Some by (subst tokenize_loop.simps) simp
      ultimately show ?thesis by blast
    qed
  qed
qed

text \<open>A grammar one of whose terminals is the empty string.\<close>

definition g_empty_terminal :: grammar where
  "g_empty_terminal =
     \<lparr>productions = [\<lparr>prod_id = 0, head = asc ''S'', body = [[]]\<rparr>],
      terminals = [[], DOLLAR],
      nonTerminals = [asc ''S''],
      startSymbol = asc ''S''\<rparr>"

lemma sortedTerminals_empty: "sortedTerminals g_empty_terminal = [[]]"
  by (simp add: sortedTerminals_def g_empty_terminal_def DOLLAR_def EPS_def)

lemma trim_a: "trim [97] = [97]"
  by (simp add: trim_def is_js_space_def)

lemma tokenize_loop_diverges:
  assumes "tokenize_loop ts rest acc = Some y"
  shows "\<not> (ts = [[]] \<and> rest = [97])"
proof (rule tokenize_loop.raw_induct
    [where P = "\<lambda>ts rest acc y. \<not> (ts = [[]] \<and> rest = [97])", OF _ assms])
  fix f :: "symbol list \<Rightarrow> nat list \<Rightarrow> symbol list \<Rightarrow> symbol list option"
  fix ts rest acc y
  assume IH: "\<And>ts rest acc y. f ts rest acc = Some y \<Longrightarrow> \<not> (ts = [[]] \<and> rest = [97])"
  assume body: "(if 0 < length rest
      then if startsWith rest [32] then f ts (drop 1 rest) acc
           else case find (startsWith rest) ts of
                None \<Rightarrow> f ts (trim (drop 1 rest)) (acc @ [[rest ! 0]])
              | Some t \<Rightarrow> f ts (trim (drop (length t) rest)) (acc @ [t])
      else Some acc) = Some y"
  show "\<not> (ts = [[]] \<and> rest = [97])"
  proof
    assume a: "ts = [[]] \<and> rest = [97]"
    with body have "f [[]] [97] (acc @ [[]]) = Some y"
      by (simp add: startsWith_def trim_a)
    from IH [OF this] show False by simp
  qed
qed

lemma tokenize_loop_stuck: "tokenize_loop [[]] [97] acc = None"
  using tokenize_loop_diverges [of "[[]]" "[97]" acc]
  by (cases "tokenize_loop [[]] [97] acc") auto

text \<open>
  C6, as stated, fails for a grammar with the empty string among its terminals: the empty
  terminal is a prefix of every remaining input, pushing it consumes nothing, and the loop
  never ends, so no token list (and no final \<open>'$'\<close>) is produced.
\<close>

theorem tokenize_counterexample: "tokenize g_empty_terminal (asc ''a'') = None"
  by (simp add: tokenize_def sortedTerminals_empty asc_def trim_a tokenize_loop_stuck)

text \<open>
  C6, amended: for every input string and every grammar none of whose terminals is the empty
  string, the tokenizer returns; the tokens before the last are the greedy tokenization of
  the trimmed input, and the last token is \<open>'$'\<close>.
\<close>

theorem tokenize_greedy:
  assumes "[] \<notin> set (terminals g)"
  shows "\<exists>toks. tokenize g inputStr = Some (toks @ [DOLLAR])
           \<and> greedy_tokens g (trim inputStr) toks"
proof -
  have "trim inputStr = [] \<or> \<not> is_js_space (hd (trim inputStr))"
    using hd_trim by blast
  from tokenize_loop_greedy [OF assms this, of "[]"]
  show ?thesis by (auto simp: tokenize_def)
qed

theorem tokenize_greedy_witness:
  "[] \<notin> set (terminals g_ab)
   \<and> tokenize g_ab (asc '' a  b '') = Some [asc ''a'', asc ''b'', DOLLAR]
   \<and> greedy_tokens g_ab (trim (asc '' a  b '')) [asc ''a'', asc ''b'']"
proof -
  have ne: "[] \<notin> set (terminals g_ab)"
    by (simp add: g_ab_def asc_def DOLLAR_def)
  have ev: "tokenize g_ab (asc '' a  b '') = Some [asc ''a'', asc ''b'', DOLLAR]"
    by (simp add: tokenize_def sortedTerminals_def g_ab_def asc_def DOLLAR_def EPS_def trim_def
        is_js_space_def tokenize_loop.simps startsWith_def)
  from tokenize_greedy [OF ne, of "asc '' a  b ''"] obtain toks where
    "tokenize g_ab (asc '' a  b '') = Some (toks @ [DOLLAR])"
    and gr: "greedy_tokens g_ab (trim (asc '' a  b '')) toks"
    by blast
  with ev have "toks = [asc ''a'', asc ''b'']" by simp
  with ne ev gr show ?thesis by simp
qed

section \<open>The execution loop: properties\<close>

lemma tokenize_returns:
  assumes "[] \<notin> set (terminals g)"
  shows "\<exists>toks. tokenize g inputStr = Some toks"
proof -
  have "trim inputStr = [] \<or> \<not> is_js_space (hd (trim inputStr))"
    using hd_trim by blast
  from tokenize_loop_greedy [OF assms this, of "[]"]
  show ?thesis by (auto simp: tokenize_def)
qed

text \<open>The names of inherited properties are at least seven code units long, and none of them
  is \<open>'undefined'\<close>.\<close>

lemma object_prototype_keys_length: "k \<in> set object_prototype_keys \<Longrightarrow> 7 \<le> length k"
  by (auto simp: object_prototype_keys_def asc_def)

lemma row_get_short:
  "length k < 4 \<Longrightarrow> row_get row k = map_option Val (row k)"
  using object_prototype_keys_length [of k]
  by (auto simp: row_get_def asc_def split: option.splits)

lemma num_get_short:
  "length k < 7 \<Longrightarrow> num_get row k = map_option Val (row k)"
  using object_prototype_keys_length [of k]
  by (auto simp: num_get_def split: option.splits)

lemma row_get_undefined: "row_get row (asc ''undefined'') \<noteq> Some (Inherited k)"
  by (auto simp: row_get_def object_prototype_keys_def asc_def split: option.splits)

lemma lookup_action_undefined: "lookup_action tbl s None \<noteq> Some (Inherited k)"
  by (auto simp: lookup_action_def js_key_def row_get_undefined
      split: option.splits js_val.splits)

lemma stepCount_pop_loop: "stepCount (snd (pop_loop n chs st)) = stepCount st"
  by (induction n arbitrary: chs st) simp_all

text \<open>A pass that goes on to the next one has raised the counter, unless the action it read
  was an inherited value.\<close>

lemma sim_iteration_Continue:
  assumes "sim_iteration g tbl tokens st = Continue st'"
  shows "(\<exists>k. lookup_action tbl (last_opt (stack st)) (nth_opt tokens (inputIdx st)) =
              Some (Inherited k)) \<and> st' = st
         \<or> stepCount st < stepCount st'"
proof -
  have red: "do_reduce tbl tokens prd st = Continue st' \<Longrightarrow> stepCount st < stepCount st'"
    for prd
    using stepCount_pop_loop [of "if length (body prd) = 1 \<and> body prd ! 0 = EPS then 0
        else length (body prd)" "[]"
        "push_step_incr (ActReduce (prod_id prd) (head prd) (body prd))
           (ReduceExpl (body prd) (head prd)) tokens st"]
    by (auto simp: do_reduce_def Let_def push_step_incr_def push_step_def
        split: prod.splits option.splits if_splits)
  show ?thesis
    using assms red
    by (auto simp: sim_iteration_def Let_def do_shift_def push_step_incr_def
        split: option.splits action_entry.splits js_val.splits)
qed

text \<open>Induction over a run of the loop that returns.\<close>

lemma sim_loop_induct [consumes 1, case_names ceiling break catch continue]:
  assumes run: "sim_loop g tbl toks st = Some y"
    and ceiling: "\<And>st. \<not> stepCount st < MAX_STEPS \<Longrightarrow> P st (ByCeiling, st)"
    and break: "\<And>st st'. stepCount st < MAX_STEPS \<Longrightarrow> sim_iteration g tbl toks st = Break st'
         \<Longrightarrow> P st (ByBreak, st')"
    and catch: "\<And>st st'. stepCount st < MAX_STEPS \<Longrightarrow> sim_iteration g tbl toks st = Throw st'
         \<Longrightarrow> P st (ByCatch, push_step ActError RuntimeError toks st')"
    and continue: "\<And>st st' y. stepCount st < MAX_STEPS
         \<Longrightarrow> sim_iteration g tbl toks st = Continue st' \<Longrightarrow> P st' y \<Longrightarrow> P st y"
  shows "P st y"
proof -
  have "g = g \<and> tbl = tbl \<and> toks = toks \<longrightarrow> P st y"
  proof (rule sim_loop.raw_induct
    [where P = "\<lambda>g' tbl' toks' st y. g' = g \<and> tbl' = tbl \<and> toks' = toks \<longrightarrow> P st y",
      OF _ run])
  fix f g' tbl' toks' st y
  assume ih: "\<And>g' tbl' toks' st y. f g' tbl' toks' st = Some y \<Longrightarrow>
      g' = g \<and> tbl' = tbl \<and> toks' = toks \<longrightarrow> P st y"
    and body: "(if stepCount st < MAX_STEPS
       then case sim_iteration g' tbl' toks' st of
              Continue st' \<Rightarrow> f g' tbl' toks' st'
            | Break st' \<Rightarrow> Some (ByBreak, st')
            | Throw st' \<Rightarrow> Some (ByCatch, push_step ActError RuntimeError toks' st')
       else Some (ByCeiling, st)) = Some y"
  show "g' = g \<and> tbl' = tbl \<and> toks' = toks \<longrightarrow> P st y"
  proof
    assume eq: "g' = g \<and> tbl' = tbl \<and> toks' = toks"
    show "P st y"
    proof (cases "stepCount st < MAX_STEPS")
      case False
      with body ceiling [OF False] show ?thesis by simp
    next
      case True
      show ?thesis
      proof (cases "sim_iteration g tbl toks st")
        case (Continue st')
        with body True eq have "f g tbl toks st' = Some y" by simp
        from ih [OF this] have "P st' y" by simp
        with True Continue show ?thesis by (rule continue)
      next
        case (Break st')
        with body True eq break [OF True Break] show ?thesis by simp
      next
        case (Throw st')
        with body True eq catch [OF True Throw] show ?thesis by simp
      qed
    qed
  qed
  qed
  then show ?thesis by simp
qed

text \<open>The loop returns when no pass reads an inherited value as its action.\<close>

lemma sim_loop_returns:
  assumes "\<And>s t k. t \<in> set toks \<Longrightarrow> lookup_action tbl s (Some t) \<noteq> Some (Inherited k)"
  shows "\<exists>r st'. sim_loop g tbl toks st = Some (r, st')"
proof (induction "MAX_STEPS - stepCount st" arbitrary: st rule: less_induct)
  case less
  show ?case
  proof (cases "stepCount st < MAX_STEPS")
    case False
    then show ?thesis by (subst sim_loop.simps) simp
  next
    case True
    show ?thesis
    proof (cases "sim_iteration g tbl toks st")
      case (Continue st')
      have "lookup_action tbl (last_opt (stack st)) (nth_opt toks (inputIdx st)) \<noteq>
          Some (Inherited k)" for k
        using assms lookup_action_undefined
        by (cases "nth_opt toks (inputIdx st)") (auto simp: nth_opt_def split: if_splits)
      with sim_iteration_Continue [OF Continue] have "stepCount st < stepCount st'" by blast
      with True have "MAX_STEPS - stepCount st' < MAX_STEPS - stepCount st" by simp
      from less.hyps [OF this] Continue True show ?thesis
        by (subst sim_loop.simps) simp
    next
      case (Break st')
      with True show ?thesis by (subst sim_loop.simps) simp
    next
      case (Throw st')
      with True show ?thesis by (subst sim_loop.simps) simp
    qed
  qed
qed

text \<open>A pass that reads an inherited value as its action is repeated for ever.\<close>

lemma sim_loop_spin:
  assumes "stepCount st < MAX_STEPS" and "sim_iteration g tbl toks st = Continue st"
  shows "sim_loop g tbl toks st = None"
proof -
  have "st' \<noteq> st" if "sim_loop g tbl toks st' = Some y" for st' y
    using that
  proof (induction rule: sim_loop_induct)
    case (ceiling st)
    with assms(1) show ?case by auto
  next
    case (break st st')
    with assms(2) show ?case by auto
  next
    case (catch st st')
    with assms(2) show ?case by auto
  next
    case (continue st1 st' y)
    with assms(2) show ?case by auto
  qed
  then show ?thesis by (cases "sim_loop g tbl toks st") auto
qed

text \<open>How a returning run ends, by the way it left the loop.\<close>

lemma sim_loop_ByCatch:
  assumes "sim_loop g tbl toks st = Some (r, st')" and "r = ByCatch"
  shows "steps st' \<noteq> [] \<and> step_action (last (steps st')) = ActError
     \<and> step_explanation (last (steps st')) = RuntimeError"
proof -
  have "fst y = ByCatch \<longrightarrow> steps (snd y) \<noteq> [] \<and> step_action (last (steps (snd y))) = ActError
     \<and> step_explanation (last (steps (snd y))) = RuntimeError"
    if "sim_loop g tbl toks st = Some y" for y
    using that
    by (induction rule: sim_loop_induct) (simp_all add: push_step_def mk_step_def)
  from this [OF assms(1)] assms(2) show ?thesis by simp
qed

lemma sim_iteration_Break:
  assumes "sim_iteration g tbl toks st = Break st'"
  shows "steps st' \<noteq> []
     \<and> (step_action (last (steps st')) = ActError \<or> step_action (last (steps st')) = ActAccept)"
  using assms
  by (auto simp: sim_iteration_def do_reduce_def Let_def push_step_def mk_step_def
      split: option.splits js_val.splits action_entry.splits prod.splits if_splits)

lemma sim_loop_ByBreak:
  assumes "sim_loop g tbl toks st = Some (r, st')" and "r = ByBreak"
  shows "steps st' \<noteq> []
     \<and> (step_action (last (steps st')) = ActError \<or> step_action (last (steps st')) = ActAccept)"
proof -
  have "fst y = ByBreak \<longrightarrow> steps (snd y) \<noteq> []
     \<and> (step_action (last (steps (snd y))) = ActError
         \<or> step_action (last (steps (snd y))) = ActAccept)"
    if "sim_loop g tbl toks st = Some y" for y
    using that
    by (induction rule: sim_loop_induct) (simp_all add: sim_iteration_Break)
  from this [OF assms(1)] assms(2) show ?thesis by simp
qed

section \<open>The simulator returns: properties\<close>

text \<open>A table whose only action, in state 0 on \<open>'$'\<close>, is a reduction by a production id
  that no grammar here has.\<close>

definition t_unknown :: parsing_table where
  "t_unknown =
     \<lparr>action = [0 \<mapsto> [DOLLAR \<mapsto> Reduce 7]], goto = [0 \<mapsto> Map.empty],
      table_terminals = [asc ''a'', asc ''b'', DOLLAR], table_nonTerminals = [asc ''S''],
      conflicts = []\<rparr>"

lemma tokenize_g_ab_empty: "tokenize g_ab [] = Some [DOLLAR]"
  by (simp add: tokenize_def trim_def tokenize_loop.simps)

lemma init_state_None:
  "init_state None = \<lparr>stack = [Val 0], symbols = [Some DOLLAR],
     nodeStack = [Node 0 (Some DOLLAR) [] None], steps = [], inputIdx = 0, stepCount = 0,
     nodeIdCounter = 1\<rparr>"
  by (simp add: init_state_def init_stacks_def init_stack_def given_symbols_def init_nodes_def
      placeholder_nodes_def Let_def)

lemma sim_unknown:
  "sim_loop g_ab t_unknown [DOLLAR] (init_state None) =
     Some (ByCatch,
       (init_state None)\<lparr>steps := [mk_step (init_state None) [DOLLAR] ActError RuntimeError]\<rparr>)"
  by (subst sim_loop.simps)
    (simp add: init_state_None MAX_STEPS_def Let_def
      sim_iteration_def last_opt_def nth_opt_def lookup_action_def js_key_def t_unknown_def
      find_production_def g_ab_def push_step_def row_get_short DOLLAR_def)

text \<open>
  C4, as stated, fails: tokenization happens before the \<open>try\<close> block, and for a grammar with
  the empty string among its terminals it never ends, so no step list is returned.
\<close>

theorem simulateParsing_counterexample:
  "simulateParsing (asc ''a'') g_empty_terminal t_unknown None = None"
  by (simp add: simulateParsing_def tokenize_def sortedTerminals_empty asc_def trim_a
      tokenize_loop_stuck)

text \<open>
  The execution loop need not end either. With the terminal \<open>constructor\<close> as lookahead, the
  read of an action row that has no such cell returns the inherited \<open>constructor\<close> function;
  no branch of the loop body is taken, the counter stays, and the pass is repeated for ever.
  The amended claim leaves such reads out.
\<close>

definition g_ctor :: grammar where
  "g_ctor =
     \<lparr>productions = [\<lparr>prod_id = 0, head = asc ''S'', body = [asc ''constructor'']\<rparr>],
      terminals = [asc ''constructor'', DOLLAR],
      nonTerminals = [asc ''S''],
      startSymbol = asc ''S''\<rparr>"

definition t_empty :: parsing_table where
  "t_empty =
     \<lparr>action = [0 \<mapsto> Map.empty], goto = [0 \<mapsto> Map.empty],
      table_terminals = [asc ''constructor'', DOLLAR], table_nonTerminals = [],
      conflicts = []\<rparr>"

lemma tokenize_g_ctor:
  "tokenize g_ctor (asc ''constructor'') = Some [asc ''constructor'', DOLLAR]"
  by (simp add: tokenize_def sortedTerminals_def g_ctor_def asc_def DOLLAR_def EPS_def trim_def
      is_js_space_def tokenize_loop.simps startsWith_def)

lemma simulateParsing_inherited_action:
  "simulateParsing (asc ''constructor'') g_ctor t_empty None = None"
proof -
  have "sim_iteration g_ctor t_empty [asc ''constructor'', DOLLAR] (init_state None) =
      Continue (init_state None)"
    by (simp add: sim_iteration_def Let_def init_state_None last_opt_def nth_opt_def
        lookup_action_def t_empty_def js_key_def row_get_def object_prototype_keys_def)
  moreover have "stepCount (init_state None) < MAX_STEPS"
    by (simp add: init_state_None MAX_STEPS_def)
  ultimately have "sim_loop g_ctor t_empty [asc ''constructor'', DOLLAR] (init_state None) = None"
    by (rule sim_loop_spin [rotated])
  then show ?thesis by (simp add: simulateParsing_def tokenize_g_ctor)
qed

text \<open>
  C4, amended: for every input string, all resume options, every grammar none of whose
  terminals is the empty string, and every table in which no token of the input reads an
  inherited value from a row of the action table, \<open>simulateParsing\<close> returns a list of steps;
  when the execution loop raises a runtime error, the \<open>catch\<close> clause ends the list with a
  step whose action is \<open>'Error'\<close> and whose explanation reports the runtime error.
\<close>

theorem simulateParsing_returns:
  assumes "[] \<notin> set (terminals g)"
    and "\<And>toks s t k. tokenize g inputStr = Some toks \<Longrightarrow> t \<in> set toks
           \<Longrightarrow> lookup_action tbl s (Some t) \<noteq> Some (Inherited k)"
  shows "\<exists>toks reason st. tokenize g inputStr = Some toks
           \<and> sim_loop g tbl toks (init_state opts) = Some (reason, st)
           \<and> simulateParsing inputStr g tbl opts = Some (steps st)
           \<and> (reason = ByCatch \<longrightarrow>
                steps st \<noteq> [] \<and> step_action (last (steps st)) = ActError
                \<and> step_explanation (last (steps st)) = RuntimeError)"
proof -
  from tokenize_returns [OF assms(1)] obtain toks where t: "tokenize g inputStr = Some toks"
    by blast
  from sim_loop_returns [of toks tbl g "init_state opts"] assms(2) [OF t]
  obtain reason st where r: "sim_loop g tbl toks (init_state opts) = Some (reason, st)"
    by blast
  from t r have "simulateParsing inputStr g tbl opts = Some (steps st)"
    by (simp add: simulateParsing_def)
  with t r sim_loop_ByCatch [OF r] show ?thesis
    by blast
qed

theorem simulateParsing_returns_witness:
  "[] \<notin> set (terminals g_ab)
   \<and> tokenize g_ab [] = Some [DOLLAR]
   \<and> lookup_action t_unknown (Some (Val 0)) (Some DOLLAR) = Some (Val (Reduce 7))
   \<and> simulateParsing [] g_ab t_unknown None =
       Some [\<lparr>step_no = 0, step_stack = [Val 0], step_symbols = [Some DOLLAR],
              step_input = [DOLLAR], step_action = ActError, step_explanation = RuntimeError,
              forest = [Node 0 (Some DOLLAR) [] None]\<rparr>]"
proof -
  have ne: "[] \<notin> set (terminals g_ab)"
    by (simp add: g_ab_def asc_def DOLLAR_def)
  have plain: "lookup_action t_unknown s (Some t) \<noteq> Some (Inherited k)"
    if "tokenize g_ab [] = Some toks" "t \<in> set toks" for toks s t k
    using that
    by (auto simp: tokenize_g_ab_empty lookup_action_def t_unknown_def js_key_def
        row_get_short DOLLAR_def split: option.splits js_val.splits)
  have a: "lookup_action t_unknown (Some (Val 0)) (Some DOLLAR) = Some (Val (Reduce 7))"
    by (simp add: lookup_action_def t_unknown_def js_key_def row_get_short DOLLAR_def)
  have "\<exists>toks reason st. tokenize g_ab [] = Some toks
           \<and> sim_loop g_ab t_unknown toks (init_state None) = Some (reason, st)
           \<and> simulateParsing [] g_ab t_unknown None = Some (steps st)
           \<and> (reason = ByCatch \<longrightarrow>
                steps st \<noteq> [] \<and> step_action (last (steps st)) = ActError
                \<and> step_explanation (last (steps st)) = RuntimeError)"
    by (rule simulateParsing_returns [OF ne]) (rule plain)
  then obtain toks reason st where
    "tokenize g_ab [] = Some toks"
    and "sim_loop g_ab t_unknown toks (init_state None) = Some (reason, st)"
    and "simulateParsing [] g_ab t_unknown None = Some (steps st)"
    by blast
  then have "simulateParsing [] g_ab t_unknown None =
      Some [mk_step (init_state None) [DOLLAR] ActError RuntimeError]"
    by (auto simp: tokenize_g_ab_empty sim_unknown)
  with ne a show ?thesis
    by (simp add: mk_step_def init_state_None tokenize_g_ab_empty)
qed

section \<open>Reductions: properties\<close>

text \<open>The pop loop in closed form: each stack keeps all but its last \<open>n\<close> entries (nothing when
  it holds fewer), and the nodes popped become children in their original order.\<close>

lemma pop_loop_eq:
  "pop_loop n chs st =
     (drop (length (nodeStack st) - n) (nodeStack st) @ chs,
      st\<lparr>nodeStack := take (length (nodeStack st) - n) (nodeStack st),
         stack := take (length (stack st) - n) (stack st),
         symbols := take (length (symbols st) - n) (symbols st)\<rparr>)"
proof (induction n arbitrary: chs st)
  case 0
  then show ?case by simp
next
  case (Suc n)
  have tk: "take (length xs - Suc n) (butlast xs) = take (length xs - Suc n) xs"
    for xs :: "'a list"
    by (simp add: butlast_conv_take min_def)
  have dr: "drop (length xs - Suc n) (butlast xs) @
      (case last_opt xs of None \<Rightarrow> chs | Some nd \<Rightarrow> nd # chs) =
      drop (length xs - Suc n) xs @ chs" for xs :: "node list"
  proof (cases xs rule: rev_cases)
    case Nil
    then show ?thesis by (simp add: last_opt_def)
  next
    case (snoc ys y)
    then show ?thesis by (simp add: last_opt_def)
  qed
  show ?case
    by (simp add: Suc.IH tk dr)
qed


lemma eps_body: "(length b = Suc 0 \<and> b ! 0 = EPS) \<longleftrightarrow> b = [EPS]"
  by (cases b) auto

text \<open>One pass through the loop body when the action is a reduction.\<close>

lemma sim_iteration_Reduce:
  assumes "lookup_action tbl (last_opt (stack st)) (nth_opt toks (inputIdx st)) =
      Some (Val (Reduce pid))"
  shows "sim_iteration g tbl toks st =
    (case find_production g pid of
       None \<Rightarrow> Throw st
     | Some prd \<Rightarrow>
        (let eps = (body prd = [EPS]);
             n = (if eps then 0 else length (body prd));
             kept_states = take (length (stack st) - n) (stack st);
             kept_symbols = take (length (symbols st) - n) (symbols st);
             kept_nodes = take (length (nodeStack st) - n) (nodeStack st);
             popped_nodes = drop (length (nodeStack st) - n) (nodeStack st);
             chs = (if eps then [Node (nodeIdCounter st) (Some EPS) [] None] else popped_nodes);
             fresh = nodeIdCounter st + (if eps then 1 else 0);
             newNode = Node fresh (Some (head prd)) chs None;
             reduction =
               \<lparr>step_no = stepCount st, step_stack = stack st, step_symbols = symbols st,
                step_input = drop (inputIdx st) toks,
                step_action = ActReduce (prod_id prd) (head prd) (body prd),
                step_explanation = ReduceExpl (body prd) (head prd),
                forest = nodeStack st\<rparr>
         in case lookup_goto tbl (last_opt kept_states) (head prd) of
              None \<Rightarrow>
                Break (st\<lparr>stack := kept_states, symbols := kept_symbols,
                  nodeStack := kept_nodes, stepCount := stepCount st + 1,
                  nodeIdCounter := fresh + 1,
                  steps := steps st @ [reduction,
                    \<lparr>step_no = stepCount st + 1, step_stack = kept_states,
                     step_symbols = kept_symbols, step_input = drop (inputIdx st) toks,
                     step_action = ActError,
                     step_explanation = GotoError (last_opt kept_states) (head prd),
                     forest = kept_nodes\<rparr>]\<rparr>)
            | Some nextState \<Rightarrow>
                Continue (st\<lparr>stack := kept_states @ [nextState],
                  symbols := kept_symbols @ [Some (head prd)],
                  nodeStack := kept_nodes @ [newNode], stepCount := stepCount st + 2,
                  nodeIdCounter := fresh + 1,
                  steps := steps st @ [reduction,
                    \<lparr>step_no = stepCount st + 1, step_stack = kept_states @ [nextState],
                     step_symbols = kept_symbols @ [Some (head prd)],
                     step_input = drop (inputIdx st) toks,
                     step_action = ActGoTo (head prd) (last_opt kept_states) nextState,
                     step_explanation = GotoExpl nextState (head prd),
                     forest = kept_nodes @ [newNode]\<rparr>]\<rparr>)))"
proof (cases "find_production g pid")
  case None
  with assms show ?thesis by (simp add: sim_iteration_def Let_def)
next
  case (Some prd)
  show ?thesis
  proof (cases "body prd = [EPS]")
    case True
    with assms Some show ?thesis
      by (cases "lookup_goto tbl (last_opt (stack st)) (head prd)")
        (simp_all add: sim_iteration_def do_reduce_def Let_def push_step_incr_def push_step_def
          mk_step_def)
  next
    case False
    with assms Some show ?thesis
      by (cases "lookup_goto tbl
            (last_opt (take (length (stack st) - length (body prd)) (stack st))) (head prd)")
        (simp_all add: sim_iteration_def do_reduce_def Let_def push_step_incr_def push_step_def
          mk_step_def pop_loop_eq eps_body)
  qed
qed


text \<open>
  The augmented grammar \<open>S' \<rightarrow> S\<close>, \<open>S \<rightarrow> a b\<close> with its SLR(1) table, and resume options
  that start the run in state 3 (after \<open>b\<close>) with a single stack entry.
\<close>

definition g_sab :: grammar where
  "g_sab =
     \<lparr>productions =
        [\<lparr>prod_id = 0, head = asc ''S'' @ [39], body = [asc ''S'']\<rparr>,
         \<lparr>prod_id = 1, head = asc ''S'', body = [asc ''a'', asc ''b'']\<rparr>],
      terminals = [asc ''a'', asc ''b'', DOLLAR],
      nonTerminals = [asc ''S'', asc ''S'' @ [39]],
      startSymbol = asc ''S'' @ [39]\<rparr>"

definition t_sab :: parsing_table where
  "t_sab =
     \<lparr>action = [0 \<mapsto> [asc ''a'' \<mapsto> Shift 2], 1 \<mapsto> [DOLLAR \<mapsto> Accept],
                2 \<mapsto> [asc ''b'' \<mapsto> Shift 3], 3 \<mapsto> [DOLLAR \<mapsto> Reduce 1]],
      goto = [0 \<mapsto> [asc ''S'' \<mapsto> 1], 1 \<mapsto> Map.empty, 2 \<mapsto> Map.empty, 3 \<mapsto> Map.empty],
      table_terminals = [asc ''a'', asc ''b'', DOLLAR],
      table_nonTerminals = [asc ''S''],
      conflicts = []\<rparr>"

definition opts_short :: "sim_opts option" where
  "opts_short = Some \<lparr>initialStack = Some [3], initialSymbols = Some [asc ''b'']\<rparr>"

lemma tokenize_g_sab_empty: "tokenize g_sab [] = Some [DOLLAR]"
  by (simp add: tokenize_def trim_def tokenize_loop.simps)

lemma init_state_short:
  "init_state opts_short =
     \<lparr>stack = [Val 3], symbols = [Some (asc ''b'')],
      nodeStack = [Node 0 (Some (asc ''b'')) [] (Some (asc ''b''))], steps = [], inputIdx = 0,
      stepCount = 0, nodeIdCounter = 1\<rparr>"
  by (simp add: init_state_def init_stacks_def init_stack_def given_symbols_def init_nodes_def
      placeholder_nodes_def Let_def opts_short_def asc_def DOLLAR_def EPS_def)

lemma sim_short:
  "map_option (steps \<circ> snd) (sim_loop g_sab t_sab [DOLLAR] (init_state opts_short)) =
     Some [\<lparr>step_no = 0, step_stack = [Val 3], step_symbols = [Some (asc ''b'')], step_input = [DOLLAR],
       step_action = ActReduce 1 (asc ''S'') [asc ''a'', asc ''b''],
       step_explanation = ReduceExpl [asc ''a'', asc ''b''] (asc ''S''),
       forest = [Node 0 (Some (asc ''b'')) [] (Some (asc ''b''))]\<rparr>,
      \<lparr>step_no = 1, step_stack = [], step_symbols = [], step_input = [DOLLAR],
       step_action = ActError, step_explanation = GotoError None (asc ''S''), forest = []\<rparr>]"
  by (subst sim_loop.simps)
    (simp add: init_state_short MAX_STEPS_def Let_def sim_iteration_def last_opt_def nth_opt_def
      lookup_action_def lookup_goto_def js_key_def t_sab_def find_production_def g_sab_def
      do_reduce_def push_step_def push_step_incr_def mk_step_def row_get_short num_get_short
      asc_def DOLLAR_def EPS_def)

text \<open>
  C5, as stated, fails: a reduction pops \<open>len(body)\<close> times, but \<open>pop\<close> on an empty stack removes
  nothing. Resumed with one entry on each stack, the reduction by \<open>S \<rightarrow> a b\<close> (body length 2)
  takes the state stack from \<open>[3]\<close> to \<open>[]\<close>: one entry is popped, not two.
\<close>

theorem reduce_pops_counterexample:
  "map_option (map step_action) (simulateParsing [] g_sab t_sab opts_short) =
     Some [ActReduce 1 (asc ''S'') [asc ''a'', asc ''b''], ActError]
   \<and> map_option (map step_stack) (simulateParsing [] g_sab t_sab opts_short) =
     Some [[Val 3], []]"
  using sim_short
  by (cases "sim_loop g_sab t_sab [DOLLAR] (init_state opts_short)")
    (auto simp: simulateParsing_def tokenize_g_sab_empty)

text \<open>The configurations in which a run begins a pass through the loop body.\<close>

inductive visits :: "grammar \<Rightarrow> parsing_table \<Rightarrow> symbol list \<Rightarrow> sim_state \<Rightarrow> sim_state \<Rightarrow> bool"
  for g tbl toks st0 where
    start: "visits g tbl toks st0 st0"
  | pass: "visits g tbl toks st0 st \<Longrightarrow> stepCount st < MAX_STEPS
      \<Longrightarrow> sim_iteration g tbl toks st = Continue st' \<Longrightarrow> visits g tbl toks st0 st'"

lemma visits_sim_loop:
  "visits g tbl toks st0 st \<Longrightarrow> sim_loop g tbl toks st0 = sim_loop g tbl toks st"
proof (induction rule: visits.induct)
  case start
  show ?case by simp
next
  case (pass st st')
  have "sim_loop g tbl toks st = sim_loop g tbl toks st'"
    using pass.hyps(2,3) by (subst sim_loop.simps) simp
  with pass.IH show ?case by simp
qed

lemma visits_Break:
  assumes "tokenize g inputStr = Some toks" and "visits g tbl toks (init_state opts) st"
    and "stepCount st < MAX_STEPS" and "sim_iteration g tbl toks st = Break st'"
  shows "simulateParsing inputStr g tbl opts = Some (steps st')"
proof -
  have "sim_loop g tbl toks st = Some (ByBreak, st')"
    using assms(3,4) by (subst sim_loop.simps) simp
  with visits_sim_loop [OF assms(2)] assms(1) show ?thesis
    by (simp add: simulateParsing_def)
qed

lemma visits_Throw:
  assumes "tokenize g inputStr = Some toks" and "visits g tbl toks (init_state opts) st"
    and "stepCount st < MAX_STEPS" and "sim_iteration g tbl toks st = Throw st'"
  shows "simulateParsing inputStr g tbl opts =
    Some (steps st' @ [mk_step st' toks ActError RuntimeError])"
proof -
  have "sim_loop g tbl toks st = Some (ByCatch, push_step ActError RuntimeError toks st')"
    using assms(3,4) by (subst sim_loop.simps) simp
  with visits_sim_loop [OF assms(2)] assms(1) show ?thesis
    by (simp add: simulateParsing_def push_step_def)
qed

text \<open>
  C5, amended, for a table in which no production head reads an inherited value from a row
  of the goto table. When a pass of a run reads the action \<open>Reduce(productionId)\<close> and no
  production has that id, the pass throws and the run returns the steps so far followed by
  the runtime-error step. Otherwise, with \<open>n = 0\<close> for the body \<open>[\<epsilon>]\<close> and \<open>n = len(body)\<close> for any
  other body, each of the three stacks loses its last \<open>n\<close> entries, or all of them when it
  holds fewer than \<open>n\<close>; the new node is labelled with the head and has as children the popped
  nodes in their original order, or the single fresh \<open>\<epsilon>\<close> leaf for the body \<open>[\<epsilon>]\<close>; if the goto
  table has no entry at (new top state, head), the run returns the steps so far followed by
  the reduction step and a goto-error step; otherwise the goto state, the head and the new
  node are pushed, exactly two steps are appended, the reduction and the transition, and the
  run begins its next pass in that configuration.
\<close>

theorem reduce_step:
  assumes "tokenize g inputStr = Some toks"
    and "visits g tbl toks (init_state opts) st"
    and "stepCount st < MAX_STEPS"
    and "lookup_action tbl (last_opt (stack st)) (nth_opt toks (inputIdx st)) =
      Some (Val (Reduce pid))"
    and "\<And>p s k. p \<in> set (productions g) \<Longrightarrow> lookup_goto tbl s (head p) \<noteq> Some (Inherited k)"
  shows "case find_production g pid of
       None \<Rightarrow>
         simulateParsing inputStr g tbl opts =
           Some (steps st @
             [\<lparr>step_no = stepCount st, step_stack = stack st, step_symbols = symbols st,
               step_input = drop (inputIdx st) toks, step_action = ActError,
               step_explanation = RuntimeError, forest = nodeStack st\<rparr>])
     | Some prd \<Rightarrow>
        (let eps = (body prd = [EPS]);
             n = (if eps then 0 else length (body prd));
             kept_states = take (length (stack st) - n) (stack st);
             kept_symbols = take (length (symbols st) - n) (symbols st);
             kept_nodes = take (length (nodeStack st) - n) (nodeStack st);
             popped_nodes = drop (length (nodeStack st) - n) (nodeStack st);
             chs = (if eps then [Node (nodeIdCounter st) (Some EPS) [] None] else popped_nodes);
             fresh = nodeIdCounter st + (if eps then 1 else 0);
             newNode = Node fresh (Some (head prd)) chs None;
             reduction =
               \<lparr>step_no = stepCount st, step_stack = stack st, step_symbols = symbols st,
                step_input = drop (inputIdx st) toks,
                step_action = ActReduce (prod_id prd) (head prd) (body prd),
                step_explanation = ReduceExpl (body prd) (head prd),
                forest = nodeStack st\<rparr>
         in case lookup_goto tbl (last_opt kept_states) (head prd) of
              None \<Rightarrow>
                simulateParsing inputStr g tbl opts =
                  Some (steps st @ [reduction,
                    \<lparr>step_no = stepCount st + 1, step_stack = kept_states,
                     step_symbols = kept_symbols, step_input = drop (inputIdx st) toks,
                     step_action = ActError,
                     step_explanation = GotoError (last_opt kept_states) (head prd),
                     forest = kept_nodes\<rparr>])
            | Some nextState \<Rightarrow>
                is_val nextState
                \<and> visits g tbl toks (init_state opts)
                  (st\<lparr>stack := kept_states @ [nextState],
                     symbols := kept_symbols @ [Some (head prd)],
                     nodeStack := kept_nodes @ [newNode], stepCount := stepCount st + 2,
                     nodeIdCounter := fresh + 1,
                     steps := steps st @ [reduction,
                       \<lparr>step_no = stepCount st + 1, step_stack = kept_states @ [nextState],
                        step_symbols = kept_symbols @ [Some (head prd)],
                        step_input = drop (inputIdx st) toks,
                        step_action = ActGoTo (head prd) (last_opt kept_states) nextState,
                        step_explanation = GotoExpl nextState (head prd),
                        forest = kept_nodes @ [newNode]\<rparr>]\<rparr>))"
proof (cases "find_production g pid")
  case None
  with sim_iteration_Reduce [OF assms(4), of g]
  have "sim_iteration g tbl toks st = Throw st" by simp
  from visits_Throw [OF assms(1,2,3) this] None show ?thesis
    by (simp add: mk_step_def)
next
  case (Some prd)
  then have mem: "prd \<in> set (productions g)"
    by (auto simp: find_production_def find_Some_iff)
  let ?n = "if body prd = [EPS] then 0 else length (body prd)"
  let ?kept = "take (length (stack st) - ?n) (stack st)"
  note it = sim_iteration_Reduce [OF assms(4), of g, unfolded Some option.case Let_def]
  show ?thesis
  proof (cases "lookup_goto tbl (last_opt ?kept) (head prd)")
    case None
    from it [unfolded None option.case] visits_Break [OF assms(1,2,3)] None Some
    show ?thesis by (simp add: Let_def)
  next
    case (Some nextState)
    from assms(5) [OF mem] Some have v: "is_val nextState"
      by (cases nextState) (auto simp: is_val_def)
    from visits.pass [OF assms(2,3) it [unfolded Some option.case]] v Some \<open>find_production g pid = Some prd\<close>
    show ?thesis by (simp add: Let_def)
  qed
qed

text \<open>The run of the table of \<open>S \<rightarrow> a b\<close> on the input \<open>ab\<close>: two shifts lead to the
  configuration in which the reduction pops two entries.\<close>

definition st_a :: sim_state where
  "st_a = do_shift [asc ''a'', asc ''b'', DOLLAR] (Some (asc ''a'')) 2 (init_state None)"

definition st_ab :: sim_state where
  "st_ab = do_shift [asc ''a'', asc ''b'', DOLLAR] (Some (asc ''b'')) 3 st_a"

lemma tokenize_g_sab_ab: "tokenize g_sab (asc ''ab'') = Some [asc ''a'', asc ''b'', DOLLAR]"
  by (simp add: tokenize_def sortedTerminals_def g_sab_def asc_def DOLLAR_def EPS_def trim_def
      is_js_space_def tokenize_loop.simps startsWith_def)

lemma st_a_eq:
  "st_a = \<lparr>stack = [Val 0, Val 2], symbols = [Some DOLLAR, Some (asc ''a'')],
      nodeStack = [Node 0 (Some DOLLAR) [] None, Node 1 (Some (asc ''a'')) [] (Some (asc ''a''))],
      steps = [\<lparr>step_no = 0, step_stack = [Val 0], step_symbols = [Some DOLLAR],
        step_input = [asc ''a'', asc ''b'', DOLLAR], step_action = ActShift 2,
        step_explanation = ShiftExpl (Some (asc ''a'')) 2,
        forest = [Node 0 (Some DOLLAR) [] None]\<rparr>],
      inputIdx = 1, stepCount = 1, nodeIdCounter = 2\<rparr>"
  by (simp add: st_a_def do_shift_def init_state_None push_step_incr_def mk_step_def Let_def
      asc_def DOLLAR_def)

lemma st_ab_eq:
  "st_ab = \<lparr>stack = [Val 0, Val 2, Val 3],
      symbols = [Some DOLLAR, Some (asc ''a''), Some (asc ''b'')],
      nodeStack = [Node 0 (Some DOLLAR) [] None, Node 1 (Some (asc ''a'')) [] (Some (asc ''a'')),
        Node 2 (Some (asc ''b'')) [] (Some (asc ''b''))],
      steps = [\<lparr>step_no = 0, step_stack = [Val 0], step_symbols = [Some DOLLAR],
        step_input = [asc ''a'', asc ''b'', DOLLAR], step_action = ActShift 2,
        step_explanation = ShiftExpl (Some (asc ''a'')) 2,
        forest = [Node 0 (Some DOLLAR) [] None]\<rparr>,
       \<lparr>step_no = 1, step_stack = [Val 0, Val 2],
        step_symbols = [Some DOLLAR, Some (asc ''a'')],
        step_input = [asc ''b'', DOLLAR], step_action = ActShift 3,
        step_explanation = ShiftExpl (Some (asc ''b'')) 3,
        forest = [Node 0 (Some DOLLAR) [] None,
          Node 1 (Some (asc ''a'')) [] (Some (asc ''a''))]\<rparr>],
      inputIdx = 2, stepCount = 2, nodeIdCounter = 3\<rparr>"
  by (simp add: st_ab_def st_a_eq do_shift_def push_step_incr_def mk_step_def Let_def
      asc_def DOLLAR_def)

lemma visits_st_ab:
  "visits g_sab t_sab [asc ''a'', asc ''b'', DOLLAR] (init_state None) st_ab"
proof -
  let ?toks = "[asc ''a'', asc ''b'', DOLLAR]"
  have 1: "sim_iteration g_sab t_sab ?toks (init_state None) = Continue st_a"
    by (simp add: sim_iteration_def Let_def init_state_None last_opt_def nth_opt_def
        lookup_action_def t_sab_def js_key_def row_get_short asc_def st_a_def)
  have 2: "sim_iteration g_sab t_sab ?toks st_a = Continue st_ab"
    by (simp add: sim_iteration_def Let_def st_a_eq last_opt_def nth_opt_def
        lookup_action_def t_sab_def js_key_def row_get_short asc_def st_ab_def)
  have "visits g_sab t_sab ?toks (init_state None) st_a"
    by (rule visits.pass [OF visits.start _ 1]) (simp add: init_state_None MAX_STEPS_def)
  then show ?thesis
    by (rule visits.pass [OF _ _ 2]) (simp add: st_a_eq MAX_STEPS_def)
qed

theorem reduce_step_witness:
  "tokenize g_sab (asc ''ab'') = Some [asc ''a'', asc ''b'', DOLLAR]
   \<and> visits g_sab t_sab [asc ''a'', asc ''b'', DOLLAR] (init_state None) st_ab
   \<and> stack st_ab = [Val 0, Val 2, Val 3]
   \<and> stepCount st_ab < MAX_STEPS
   \<and> lookup_action t_sab (last_opt (stack st_ab))
        (nth_opt [asc ''a'', asc ''b'', DOLLAR] (inputIdx st_ab)) = Some (Val (Reduce 1))
   \<and> (\<exists>st'. visits g_sab t_sab [asc ''a'', asc ''b'', DOLLAR] (init_state None) st'
        \<and> stack st' = [Val 0, Val 1] \<and> symbols st' = [Some DOLLAR, Some (asc ''S'')]
        \<and> nodeStack st' = [Node 0 (Some DOLLAR) [] None,
             Node 3 (Some (asc ''S''))
               [Node 1 (Some (asc ''a'')) [] (Some (asc ''a'')),
                Node 2 (Some (asc ''b'')) [] (Some (asc ''b''))] None]
        \<and> map step_action (steps st') =
             [ActShift 2, ActShift 3, ActReduce 1 (asc ''S'') [asc ''a'', asc ''b''],
              ActGoTo (asc ''S'') (Some (Val 0)) (Val 1)])"
proof -
  let ?toks = "[asc ''a'', asc ''b'', DOLLAR]"
  have lt: "stepCount st_ab < MAX_STEPS" by (simp add: st_ab_eq MAX_STEPS_def)
  have act: "lookup_action t_sab (last_opt (stack st_ab)) (nth_opt ?toks (inputIdx st_ab)) =
      Some (Val (Reduce 1))"
    by (simp add: st_ab_eq last_opt_def nth_opt_def lookup_action_def js_key_def t_sab_def
        row_get_short DOLLAR_def)
  have plain: "lookup_goto t_sab s (head p) \<noteq> Some (Inherited k)"
    if "p \<in> set (productions g_sab)" for p s k
    using that
    by (auto simp: lookup_goto_def t_sab_def g_sab_def num_get_short asc_def
        split: option.splits js_val.splits if_splits)
  have fp: "find_production g_sab 1 =
      Some \<lparr>prod_id = 1, head = asc ''S'', body = [asc ''a'', asc ''b'']\<rparr>"
    by (simp add: find_production_def g_sab_def)
  have gt: "lookup_goto t_sab (Some (Val 0)) (asc ''S'') = Some (Val 1)"
    by (simp add: lookup_goto_def t_sab_def num_get_short asc_def)
  have "case find_production g_sab 1 of
       None \<Rightarrow> True
     | Some prd \<Rightarrow>
         (case lookup_goto t_sab
             (last_opt (take (length (stack st_ab) - length (body prd)) (stack st_ab)))
             (head prd) of
            None \<Rightarrow> True
          | Some nextState \<Rightarrow>
              \<exists>st'. visits g_sab t_sab ?toks (init_state None) st'
                \<and> stack st' = take (length (stack st_ab) - length (body prd)) (stack st_ab)
                    @ [nextState]
                \<and> symbols st' = take (length (symbols st_ab) - length (body prd)) (symbols st_ab)
                    @ [Some (head prd)]
                \<and> nodeStack st' =
                    take (length (nodeStack st_ab) - length (body prd)) (nodeStack st_ab)
                    @ [Node (nodeIdCounter st_ab) (Some (head prd))
                         (drop (length (nodeStack st_ab) - length (body prd)) (nodeStack st_ab))
                         None]
                \<and> map step_action (steps st') = map step_action (steps st_ab) @
                    [ActReduce (prod_id prd) (head prd) (body prd),
                     ActGoTo (head prd)
                       (last_opt (take (length (stack st_ab) - length (body prd)) (stack st_ab)))
                       nextState])"
    using reduce_step [OF tokenize_g_sab_ab visits_st_ab lt act plain]
    unfolding fp
    by (auto simp: Let_def asc_def EPS_def split: option.splits)
  then show ?thesis
    unfolding fp
    using tokenize_g_sab_ab visits_st_ab lt act
    by (simp add: st_ab_eq last_opt_def gt)
qed

section \<open>The iteration ceiling: properties\<close>

text \<open>The actions of steps that do not end a run, and among them the two that a pass through
  the loop body can end with.\<close>

definition ordinary_action :: "step_action \<Rightarrow> bool" where
  "ordinary_action a =
     (case a of ActShift _ \<Rightarrow> True | ActReduce _ _ _ \<Rightarrow> True | ActGoTo _ _ _ \<Rightarrow> True
      | _ \<Rightarrow> False)"

definition progress_action :: "step_action \<Rightarrow> bool" where
  "progress_action a =
     (case a of ActShift _ \<Rightarrow> True | ActGoTo _ _ _ \<Rightarrow> True | _ \<Rightarrow> False)"

text \<open>A run that has emitted neither an \<open>'Accept'\<close> nor an \<open>'Error'\<close> step: every step so far
  raised the counter, and once the counter is at the ceiling the last step is a shift or a
  goto transition.\<close>

definition running :: "sim_state \<Rightarrow> bool" where
  "running st \<longleftrightarrow>
     length (steps st) = stepCount st
     \<and> list_all (\<lambda>s. ordinary_action (step_action s)) (steps st)
     \<and> (MAX_STEPS \<le> stepCount st \<longrightarrow>
          steps st \<noteq> [] \<and> progress_action (step_action (last (steps st)))
          \<and> stepCount st \<le> MAX_STEPS + 1)"

lemma sim_iteration_Continue_steps:
  assumes "sim_iteration g tbl toks st = Continue st'"
  shows "st' = st
     \<or> (\<exists>new. steps st' = steps st @ new \<and> new \<noteq> [] \<and> length new \<le> 2
           \<and> stepCount st' = stepCount st + length new
           \<and> list_all (\<lambda>s. ordinary_action (step_action s)) new
           \<and> progress_action (step_action (last new)))"
proof -
  let ?a = "lookup_action tbl (last_opt (stack st)) (nth_opt toks (inputIdx st))"
  from assms obtain v where v: "?a = Some v"
    by (cases ?a) (auto simp: sim_iteration_def Let_def)
  show ?thesis
  proof (cases v)
    case (Inherited k)
    with assms v show ?thesis by (simp add: sim_iteration_def Let_def)
  next
    case (Val e)
    show ?thesis
    proof (cases e)
      case (Shift n)
      with assms v Val show ?thesis
        by (auto simp: sim_iteration_def Let_def do_shift_def push_step_incr_def mk_step_def
            ordinary_action_def progress_action_def)
    next
      case (Reduce pid)
      from sim_iteration_Reduce [of tbl st toks pid g] v Val Reduce assms show ?thesis
        by (auto simp: Let_def ordinary_action_def progress_action_def
            split: option.splits)
    next
      case Accept
      with assms v Val show ?thesis by (simp add: sim_iteration_def Let_def)
    qed
  qed
qed

lemma running_ceiling:
  assumes "sim_loop g tbl toks st = Some (r, st')" and "r = ByCeiling" and "running st"
  shows "running st' \<and> MAX_STEPS \<le> stepCount st'"
proof -
  have "running st \<and> fst y = ByCeiling \<longrightarrow>
      running (snd y) \<and> MAX_STEPS \<le> stepCount (snd y)"
    if "sim_loop g tbl toks st = Some y" for y
    using that
  proof (induction rule: sim_loop_induct)
    case (ceiling st)
    then show ?case by simp
  next
    case (break st st')
    show ?case by simp
  next
    case (catch st st')
    show ?case by simp
  next
    case (continue st st' y)
    have "running st \<Longrightarrow> running st'"
      using sim_iteration_Continue_steps [OF continue.hyps(2)] continue.hyps(1)
      by (auto simp: running_def)
    with continue.IH show ?case by blast
  qed
  from this [OF assms(1)] assms(2,3) show ?thesis by simp
qed

lemma running_init: "running (init_state opts)"
  by (simp add: running_def init_state_def Let_def MAX_STEPS_def split: prod.splits)

text \<open>
  The grammar \<open>A' \<rightarrow> A\<close>, \<open>A \<rightarrow> \<epsilon>\<close> and a table with a goto cycle on the empty production: state
  0 reduces by \<open>A \<rightarrow> \<epsilon>\<close> on \<open>'$'\<close> and goes to state 0 on \<open>A\<close>.
\<close>

definition g_eps :: grammar where
  "g_eps =
     \<lparr>productions =
        [\<lparr>prod_id = 0, head = asc ''A'' @ [39], body = [asc ''A'']\<rparr>,
         \<lparr>prod_id = 1, head = asc ''A'', body = [EPS]\<rparr>],
      terminals = [DOLLAR],
      nonTerminals = [asc ''A'', asc ''A'' @ [39]],
      startSymbol = asc ''A'' @ [39]\<rparr>"

definition t_cycle :: parsing_table where
  "t_cycle =
     \<lparr>action = [0 \<mapsto> [DOLLAR \<mapsto> Reduce 1]], goto = [0 \<mapsto> [asc ''A'' \<mapsto> 0]],
      table_terminals = [DOLLAR], table_nonTerminals = [asc ''A''], conflicts = []\<rparr>"

definition cycling :: "sim_state \<Rightarrow> bool" where
  "cycling st \<longleftrightarrow>
     stack st \<noteq> [] \<and> last (stack st) = Val 0 \<and> inputIdx st = 0
     \<and> (MAX_STEPS \<le> stepCount st \<longrightarrow>
          steps st \<noteq> []
          \<and> step_action (last (steps st)) = ActGoTo (asc ''A'') (Some (Val 0)) (Val 0))"

lemma cycle_iteration:
  assumes "stack st \<noteq> []" "last (stack st) = Val 0" "inputIdx st = 0"
  shows "\<exists>st'. sim_iteration g_eps t_cycle [DOLLAR] st = Continue st'
           \<and> stack st' \<noteq> [] \<and> last (stack st') = Val 0 \<and> inputIdx st' = 0 \<and> steps st' \<noteq> []
           \<and> step_action (last (steps st')) = ActGoTo (asc ''A'') (Some (Val 0)) (Val 0)
           \<and> stepCount st < stepCount st'"
proof -
  have act: "lookup_action t_cycle (last_opt (stack st)) (nth_opt [DOLLAR] (inputIdx st)) =
      Some (Val (Reduce 1))"
    using assms
    by (simp add: last_opt_def nth_opt_def lookup_action_def js_key_def t_cycle_def
        row_get_short DOLLAR_def)
  have fp: "find_production g_eps 1 = Some \<lparr>prod_id = 1, head = asc ''A'', body = [EPS]\<rparr>"
    by (simp add: find_production_def g_eps_def)
  have gt: "lookup_goto t_cycle (Some (Val 0)) (asc ''A'') = Some (Val 0)"
    by (simp add: lookup_goto_def t_cycle_def num_get_short asc_def)
  show ?thesis
    using sim_iteration_Reduce [OF act, of g_eps] assms unfolding fp
    by (simp add: Let_def gt last_opt_def)
qed

lemma cycle_loop:
  assumes "cycling st"
  shows "\<exists>st'. sim_loop g_eps t_cycle [DOLLAR] st = Some (ByCeiling, st')
         \<and> steps st' \<noteq> []
         \<and> step_action (last (steps st')) = ActGoTo (asc ''A'') (Some (Val 0)) (Val 0)"
  using assms
proof (induction "MAX_STEPS - stepCount st" arbitrary: st rule: less_induct)
  case less
  show ?case
  proof (cases "stepCount st < MAX_STEPS")
    case False
    with less.prems show ?thesis
      by (subst sim_loop.simps) (simp add: cycling_def)
  next
    case True
    from less.prems have "stack st \<noteq> []" "last (stack st) = Val 0" "inputIdx st = 0"
      by (simp_all add: cycling_def)
    from cycle_iteration [OF this] obtain st' where
      it: "sim_iteration g_eps t_cycle [DOLLAR] st = Continue st'"
      and st': "stack st' \<noteq> []" "last (stack st') = Val 0" "inputIdx st' = 0" "steps st' \<noteq> []"
        "step_action (last (steps st')) = ActGoTo (asc ''A'') (Some (Val 0)) (Val 0)"
      and sc: "stepCount st < stepCount st'"
      by blast
    have "MAX_STEPS - stepCount st' < MAX_STEPS - stepCount st"
      using True sc by simp
    moreover have "cycling st'"
      using st' by (simp add: cycling_def)
    ultimately show ?thesis
      using less.hyps [of st'] True it by (subst sim_loop.simps) simp
  qed
qed

lemma cycling_init: "cycling (init_state None)"
  by (simp add: cycling_def init_state_None MAX_STEPS_def)

lemma tokenize_g_eps_empty: "tokenize g_eps [] = Some [DOLLAR]"
  by (simp add: tokenize_def trim_def tokenize_loop.simps)

text \<open>
  C3, as stated, fails: when the counter reaches the ceiling the loop simply ends and the
  steps collected so far are returned. On the goto cycle the run is cut at the ceiling and
  the last step returned is the ordinary \<open>GoTo\<close> step of the last reduction; no step marks
  the halt.
\<close>

theorem ceiling_counterexample:
  "map_option fst (sim_loop g_eps t_cycle [DOLLAR] (init_state None)) = Some ByCeiling
   \<and> map_option (step_action \<circ> last) (simulateParsing [] g_eps t_cycle None) =
       Some (ActGoTo (asc ''A'') (Some (Val 0)) (Val 0))"
  using cycle_loop [OF cycling_init]
  by (auto simp: simulateParsing_def tokenize_g_eps_empty)

text \<open>
  C3, amended: if the loop reaches the ceiling without having emitted an \<open>'Accept'\<close> or an
  \<open>'Error'\<close> step, the returned list holds \<open>MAX_STEPS\<close> or \<open>MAX_STEPS + 1\<close> steps, all of them
  shift, reduce or goto steps, and it ends with the shift or goto step of the last pass; no
  step identifies the halt. A run that leaves the loop in another way returns a list whose
  last step is an \<open>'Accept'\<close> or an \<open>'Error'\<close> step. So the caller recognises a ceiling halt by
  the last step being neither \<open>'Accept'\<close> nor \<open>'Error'\<close>, and in no other way.
\<close>

theorem ceiling_exit_unmarked:
  assumes "tokenize g inputStr = Some toks"
    and "sim_loop g tbl toks (init_state opts) = Some (reason, st)"
  shows "simulateParsing inputStr g tbl opts = Some (steps st)
     \<and> steps st \<noteq> []
     \<and> (reason = ByCeiling \<longrightarrow>
          (length (steps st) = MAX_STEPS \<or> length (steps st) = MAX_STEPS + 1)
          \<and> list_all (\<lambda>s. ordinary_action (step_action s)) (steps st)
          \<and> progress_action (step_action (last (steps st))))
     \<and> (reason \<noteq> ByCeiling \<longrightarrow>
          step_action (last (steps st)) = ActError \<or> step_action (last (steps st)) = ActAccept)
     \<and> (reason = ByCeiling \<longleftrightarrow>
          step_action (last (steps st)) \<noteq> ActError \<and> step_action (last (steps st)) \<noteq> ActAccept)"
proof -
  have ret: "simulateParsing inputStr g tbl opts = Some (steps st)"
    using assms by (simp add: simulateParsing_def)
  show ?thesis
  proof (cases "reason = ByCeiling")
    case True
    from running_ceiling [OF assms(2) True running_init]
    have r: "running st" and c: "MAX_STEPS \<le> stepCount st" by simp_all
    have len: "length (steps st) = MAX_STEPS \<or> length (steps st) = MAX_STEPS + 1"
      using r c by (auto simp: running_def)
    then have ne: "steps st \<noteq> []" by (auto simp: MAX_STEPS_def)
    have ord: "list_all (\<lambda>s. ordinary_action (step_action s)) (steps st)"
      using r by (simp add: running_def)
    have p: "progress_action (step_action (last (steps st)))"
      using r c by (simp add: running_def)
    then have "step_action (last (steps st)) \<noteq> ActError"
      "step_action (last (steps st)) \<noteq> ActAccept"
      by (auto simp: progress_action_def)
    with ret True len ne ord p show ?thesis by simp
  next
    case False
    then have "reason = ByBreak \<or> reason = ByCatch" by (cases reason) simp_all
    with sim_loop_ByBreak [OF assms(2)] sim_loop_ByCatch [OF assms(2)]
    have "steps st \<noteq> []
      \<and> (step_action (last (steps st)) = ActError \<or> step_action (last (steps st)) = ActAccept)"
      by blast
    with ret False show ?thesis by auto
  qed
qed

theorem ceiling_exit_unmarked_witness:
  "tokenize g_eps [] = Some [DOLLAR]
   \<and> map_option fst (sim_loop g_eps t_cycle [DOLLAR] (init_state None)) = Some ByCeiling
   \<and> (\<exists>sts. simulateParsing [] g_eps t_cycle None = Some sts
        \<and> (length sts = MAX_STEPS \<or> length sts = MAX_STEPS + 1)
        \<and> step_action (last sts) \<noteq> ActError \<and> step_action (last sts) \<noteq> ActAccept)
   \<and> tokenize g_ab [] = Some [DOLLAR]
   \<and> map_option fst (sim_loop g_ab t_unknown [DOLLAR] (init_state None)) = Some ByCatch
   \<and> (\<exists>sts. simulateParsing [] g_ab t_unknown None = Some sts
        \<and> step_action (last sts) = ActError)"
proof -
  from cycle_loop [OF cycling_init] obtain st where
    c: "sim_loop g_eps t_cycle [DOLLAR] (init_state None) = Some (ByCeiling, st)" by blast
  note a = ceiling_exit_unmarked [OF tokenize_g_eps_empty c]
  note b = ceiling_exit_unmarked [OF tokenize_g_ab_empty sim_unknown]
  from a b c tokenize_g_eps_empty tokenize_g_ab_empty sim_unknown show ?thesis
    by (simp add: mk_step_def)
qed

section \<open>Closure: properties\<close>

text \<open>An item of the grammar: its production id names a production.\<close>

definition item_ok :: "grammar \<Rightarrow> lr_item \<Rightarrow> bool" where
  "item_ok g it \<longleftrightarrow> find_production g (productionId it) \<noteq> None"

lemma getClosure_loop_fixed:
  "getClosure_loop g cl = Inr C \<Longrightarrow> prefix cl C \<and> closure_for g 0 C False = Inr (C, False)"
proof (induction g cl rule: getClosure_loop.induct)
  case (1 g closure)
  from "1.prems" obtain c2 h2 where r: "closure_for g 0 closure False = Inr (c2, h2)"
    by (cases "closure_for g 0 closure False")
      (auto simp: getClosure_loop.simps [of g closure])
  from closure_for_measure [OF r]
  have m: "prefix closure c2" "h2 \<longleftrightarrow> length closure < length c2" by simp_all
  show ?case
  proof (cases h2)
    case True
    with "1.prems" r have "getClosure_loop g c2 = Inr C"
      by (simp add: getClosure_loop.simps [of g closure])
    from "1.IH" [OF r refl True this] m(1) show ?thesis
      by (auto intro: prefix_order.trans)
  next
    case False
    with "1.prems" r have C: "C = c2"
      by (simp add: getClosure_loop.simps [of g closure])
    from False m have "length c2 = length closure"
      by (auto dest: prefix_length_le)
    with m(1) have "c2 = closure"
      by (auto simp: prefix_def)
    with r False C m(1) show ?thesis by simp
  qed
qed

lemma add_closure_items_ok:
  assumes "\<forall>it \<in> set cl. item_ok g it"
    and "set ps \<subseteq> set (productions g)"
  shows "\<forall>it \<in> set (fst (fold (add_closure_item s) ps (cl, ch))). item_ok g it"
  using assms
proof (induction ps arbitrary: cl ch)
  case Nil
  then show ?case by simp
next
  case (Cons p ps)
  have "item_ok g \<lparr>productionId = prod_id p, dotPosition = 0\<rparr>"
    using Cons.prems(2) by (auto simp: item_ok_def find_production_def find_None_iff)
  with Cons.prems have "\<forall>it \<in> set (fst (add_closure_item s p (cl, ch))). item_ok g it"
    by (auto simp: add_closure_item_def Let_def)
  with Cons.IH [of "fst (add_closure_item s p (cl, ch))" "snd (add_closure_item s p (cl, ch))"]
    Cons.prems(2)
  show ?case by simp
qed

lemma closure_item_ok:
  assumes "\<forall>it \<in> set cl. item_ok g it"
  shows "\<forall>it \<in> set (fst (closure_item g prd item (cl, ch))). item_ok g it"
  using assms add_closure_items_ok [OF assms subset_refl]
  by (auto simp: closure_item_def add_closure_items_def split: option.splits)

lemma closure_for_returns:
  "\<forall>it \<in> set cl. item_ok g it \<Longrightarrow>
     \<exists>cl' ch'. closure_for g i cl ch = Inr (cl', ch') \<and> (\<forall>it \<in> set cl'. item_ok g it)"
proof (induction g i cl ch rule: closure_for.induct)
  case (1 g i closure changed)
  show ?case
  proof (cases "i < length closure")
    case False
    with "1.prems" show ?thesis by (simp add: closure_for.simps [of g i closure changed])
  next
    case True
    with "1.prems" have "item_ok g (closure ! i)" by simp
    then obtain prd where
      prd: "find_production g (productionId (closure ! i)) = Some prd"
      by (auto simp: item_ok_def)
    obtain c2 h2 where a: "closure_item g prd (closure ! i) (closure, changed) = (c2, h2)"
      by (cases "closure_item g prd (closure ! i) (closure, changed)")
    have "\<forall>it \<in> set c2. item_ok g it"
      using closure_item_ok [OF "1.prems", of prd "closure ! i" changed] a by simp
    from "1.IH" [OF True prd a [symmetric] this] True prd a show ?thesis
      by (simp add: closure_for.simps [of g i closure changed])
  qed
qed

lemma getClosure_loop_returns:
  "\<forall>it \<in> set cl. item_ok g it \<Longrightarrow>
     \<exists>C. getClosure_loop g cl = Inr C \<and> (\<forall>it \<in> set C. item_ok g it)"
proof (induction g cl rule: getClosure_loop.induct)
  case (1 g closure)
  from closure_for_returns [OF "1.prems", of 0 False] obtain c2 h2 where
    r: "closure_for g 0 closure False = Inr (c2, h2)" and ok: "\<forall>it \<in> set c2. item_ok g it"
    by blast
  show ?case
  proof (cases h2)
    case True
    from "1.IH" [OF r refl True ok] r True show ?thesis
      by (simp add: getClosure_loop.simps [of g closure])
  next
    case False
    with r ok show ?thesis by (simp add: getClosure_loop.simps [of g closure])
  qed
qed

lemma getClosure_idem: "getClosure its g = Inr C \<Longrightarrow> getClosure C g = Inr C"
  using getClosure_loop_fixed [of g its C]
  by (simp add: getClosure_def getClosure_loop.simps [of g C])

text \<open>The augmented grammar of \<open>S \<rightarrow> a S | b\<close>.\<close>

definition g_ab' :: grammar where
  "g_ab' = augmentGrammar g_ab"

lemma g_ab'_eq:
  "g_ab' =
     \<lparr>productions =
        [\<lparr>prod_id = 0, head = asc ''S'' @ [39], body = [asc ''S'']\<rparr>,
         \<lparr>prod_id = 1, head = asc ''S'', body = [asc ''a'', asc ''S'']\<rparr>,
         \<lparr>prod_id = 2, head = asc ''S'', body = [asc ''b'']\<rparr>],
      terminals = [asc ''a'', asc ''b'', DOLLAR],
      nonTerminals = [asc ''S'', asc ''S'' @ [39]],
      startSymbol = asc ''S'' @ [39]\<rparr>"
  by (simp add: g_ab'_def augmentGrammar_def g_ab_def Let_def set_add_def asc_def)

lemma getClosure_start:
  "getClosure [\<lparr>productionId = 0, dotPosition = 0\<rparr>] g_ab' =
     Inr [\<lparr>productionId = 0, dotPosition = 0\<rparr>, \<lparr>productionId = 1, dotPosition = 0\<rparr>,
          \<lparr>productionId = 2, dotPosition = 0\<rparr>]"
  by (simp add: getClosure_def getClosure_loop.simps closure_for.simps closure_item_def
      add_closure_items_def add_closure_item_def find_production_def nth_opt_def
      areItemsEqual_def g_ab'_eq asc_def Let_def)

text \<open>
  C10: whenever \<open>getClosure\<close> returns, every item of its argument is in the result, and the
  closure of the result is the result itself (the same items, even in the same order); and it
  returns for every set of items of the grammar. (For an item whose production id names no
  production it throws.)
\<close>

theorem getClosure_extensive_idempotent:
  "(\<forall>C. getClosure its g = Inr C \<longrightarrow> set its \<subseteq> set C \<and> getClosure C g = Inr C)
   \<and> ((\<forall>it \<in> set its. item_ok g it) \<longrightarrow> (\<exists>C. getClosure its g = Inr C))"
proof (intro conjI allI impI)
  fix C assume "getClosure its g = Inr C"
  then show "set its \<subseteq> set C"
    using getClosure_loop_fixed [of g its C] by (auto simp: getClosure_def dest: set_mono_prefix)
next
  fix C assume "getClosure its g = Inr C"
  then show "getClosure C g = Inr C" by (rule getClosure_idem)
next
  assume "\<forall>it \<in> set its. item_ok g it"
  from getClosure_loop_returns [OF this] show "\<exists>C. getClosure its g = Inr C"
    by (auto simp: getClosure_def)
qed

theorem getClosure_extensive_idempotent_witness:
  "item_ok g_ab' \<lparr>productionId = 0, dotPosition = 0\<rparr>
   \<and> getClosure [\<lparr>productionId = 0, dotPosition = 0\<rparr>] g_ab' =
       Inr [\<lparr>productionId = 0, dotPosition = 0\<rparr>, \<lparr>productionId = 1, dotPosition = 0\<rparr>,
            \<lparr>productionId = 2, dotPosition = 0\<rparr>]
   \<and> getClosure [\<lparr>productionId = 0, dotPosition = 0\<rparr>, \<lparr>productionId = 1, dotPosition = 0\<rparr>,
         \<lparr>productionId = 2, dotPosition = 0\<rparr>] g_ab' =
       Inr [\<lparr>productionId = 0, dotPosition = 0\<rparr>, \<lparr>productionId = 1, dotPosition = 0\<rparr>,
            \<lparr>productionId = 2, dotPosition = 0\<rparr>]"
proof -
  have ok: "item_ok g_ab' \<lparr>productionId = 0, dotPosition = 0\<rparr>"
    by (simp add: item_ok_def find_production_def g_ab'_eq)
  from getClosure_extensive_idempotent [of "[\<lparr>productionId = 0, dotPosition = 0\<rparr>]" g_ab']
    getClosure_start ok
  show ?thesis by simp
qed


section \<open>The canonical collection: properties\<close>

text \<open>The items of a grammar: the production id names a production and the dot is within its
  body or at its end. There are finitely many.\<close>

definition item_universe :: "grammar \<Rightarrow> lr_item set" where
  "item_universe g =
     {it. \<exists>p. find_production g (productionId it) = Some p \<and> dotPosition it \<le> length (body p)}"

text \<open>An item set without repeated items, all of them items of the grammar.\<close>

definition items_wf :: "grammar \<Rightarrow> lr_item list \<Rightarrow> bool" where
  "items_wf g its \<longleftrightarrow> distinct its \<and> set its \<subseteq> item_universe g"

lemma find_production_mem:
  "find_production g i = Some p \<Longrightarrow> p \<in> set (productions g) \<and> prod_id p = i"
  by (auto simp: find_production_def find_Some_iff)

lemma finite_item_universe: "finite (item_universe g)"
proof -
  let ?M = "sum_list (map (\<lambda>p. length (body p)) (productions g))"
  have "item_universe g \<subseteq>
      (\<lambda>(i, d). \<lparr>productionId = i, dotPosition = d\<rparr>) ` (prod_id ` set (productions g) \<times> {..?M})"
  proof
    fix it assume "it \<in> item_universe g"
    then obtain p where p: "find_production g (productionId it) = Some p"
      and d: "dotPosition it \<le> length (body p)"
      by (auto simp: item_universe_def)
    from find_production_mem [OF p] have mem: "p \<in> set (productions g)"
      and pid: "prod_id p = productionId it" by simp_all
    have "length (body p) \<le> ?M"
      using mem by (simp add: member_le_sum_list)
    with d have "dotPosition it \<le> ?M" by simp
    moreover have "it = \<lparr>productionId = productionId it, dotPosition = dotPosition it\<rparr>"
      by simp
    moreover have "productionId it \<in> prod_id ` set (productions g)"
      using mem pid by force
    ultimately show "it \<in> (\<lambda>(i, d). \<lparr>productionId = i, dotPosition = d\<rparr>) `
        (prod_id ` set (productions g) \<times> {..?M})"
      by (auto intro!: image_eqI [where x = "(productionId it, dotPosition it)"])
  qed
  then show ?thesis
    by (rule finite_subset) simp
qed

lemma item_universe_ok: "it \<in> item_universe g \<Longrightarrow> item_ok g it"
  by (auto simp: item_universe_def item_ok_def)

lemma start_item_universe:
  assumes "p \<in> set (productions g)"
  shows "\<lparr>productionId = prod_id p, dotPosition = 0\<rparr> \<in> item_universe g"
proof -
  have "find_production g (prod_id p) \<noteq> None"
    using assms by (auto simp: find_production_def find_None_iff)
  then show ?thesis by (auto simp: item_universe_def)
qed

lemma add_closure_items_wf:
  assumes "items_wf g cl" and "set ps \<subseteq> set (productions g)"
  shows "items_wf g (fst (fold (add_closure_item s) ps (cl, ch)))"
  using assms
proof (induction ps arbitrary: cl ch)
  case Nil
  then show ?case by simp
next
  case (Cons p ps)
  have "items_wf g (fst (add_closure_item s p (cl, ch)))"
    using Cons.prems start_item_universe [of p g]
    by (auto simp: add_closure_item_def Let_def items_wf_def list_ex_iff areItemsEqual_eq)
  with Cons.IH [of "fst (add_closure_item s p (cl, ch))" "snd (add_closure_item s p (cl, ch))"]
    Cons.prems(2)
  show ?case by simp
qed

lemma closure_item_wf:
  assumes "items_wf g cl"
  shows "items_wf g (fst (closure_item g prd item (cl, ch)))"
  using assms add_closure_items_wf [OF assms subset_refl]
  by (auto simp: closure_item_def add_closure_items_def split: option.splits)

lemma closure_for_wf:
  "closure_for g i cl ch = Inr (cl', ch') \<Longrightarrow> items_wf g cl \<Longrightarrow> items_wf g cl'"
proof (induction g i cl ch rule: closure_for.induct)
  case (1 g i closure changed)
  show ?case
  proof (cases "i < length closure")
    case False
    with "1.prems" show ?thesis by (simp add: closure_for.simps [of g i closure changed])
  next
    case True
    from "1.prems" True obtain prd where
      prd: "find_production g (productionId (closure ! i)) = Some prd"
      by (cases "find_production g (productionId (closure ! i))")
        (auto simp: closure_for.simps [of g i closure changed])
    obtain c2 h2 where a: "closure_item g prd (closure ! i) (closure, changed) = (c2, h2)"
      by (cases "closure_item g prd (closure ! i) (closure, changed)")
    have r: "closure_for g (i + 1) c2 h2 = Inr (cl', ch')"
      using "1.prems" True prd a by (simp add: closure_for.simps [of g i closure changed])
    have "items_wf g c2"
      using closure_item_wf [OF "1.prems"(2), of prd "closure ! i" changed] a by simp
    from "1.IH" [OF True prd a [symmetric] r this] show ?thesis .
  qed
qed

lemma getClosure_loop_wf:
  "getClosure_loop g cl = Inr C \<Longrightarrow> items_wf g cl \<Longrightarrow> items_wf g C"
proof (induction g cl rule: getClosure_loop.induct)
  case (1 g closure)
  from "1.prems" obtain c2 h2 where r: "closure_for g 0 closure False = Inr (c2, h2)"
    by (cases "closure_for g 0 closure False")
      (auto simp: getClosure_loop.simps [of g closure])
  have wf2: "items_wf g c2" by (rule closure_for_wf [OF r "1.prems"(2)])
  show ?case
  proof (cases h2)
    case True
    with "1.prems" r have "getClosure_loop g c2 = Inr C"
      by (simp add: getClosure_loop.simps [of g closure])
    from "1.IH" [OF r refl True this wf2] show ?thesis .
  next
    case False
    with "1.prems" r wf2 show ?thesis
      by (simp add: getClosure_loop.simps [of g closure])
  qed
qed

lemma getClosure_wf:
  assumes "items_wf g its"
  shows "\<exists>C. getClosure its g = Inr C \<and> items_wf g C \<and> set its \<subseteq> set C"
proof -
  have "\<forall>it \<in> set its. item_ok g it"
    using assms by (auto simp: items_wf_def intro: item_universe_ok)
  from getClosure_loop_returns [OF this] obtain C where C: "getClosure_loop g its = Inr C"
    by blast
  from getClosure_loop_wf [OF C assms] getClosure_loop_fixed [OF C] C show ?thesis
    by (auto simp: getClosure_def dest: set_mono_prefix)
qed

lemma advance_inj:
  fixes a b :: lr_item
  assumes "a\<lparr>dotPosition := dotPosition a + 1\<rparr> = b\<lparr>dotPosition := dotPosition b + 1\<rparr>"
  shows "a = b"
proof -
  from assms have "productionId a = productionId b"
    by (metis lr_item.select_convs(1) lr_item.surjective lr_item.update_convs(2))
  moreover from assms have "dotPosition a + 1 = dotPosition b + 1"
    by (metis lr_item.select_convs(2) lr_item.surjective lr_item.update_convs(2))
  ultimately show ?thesis by simp
qed

lemma goto_items_wf:
  assumes "set its \<subseteq> item_universe g" and "distinct its"
  shows "\<exists>next. goto_items g s its = Inr next \<and> items_wf g next
           \<and> set next \<subseteq> (\<lambda>it. it\<lparr>dotPosition := dotPosition it + 1\<rparr>) ` set its
           \<and> (next = [] \<longleftrightarrow> (\<forall>it \<in> set its. \<forall>p. find_production g (productionId it) = Some p
                 \<longrightarrow> nth_opt (body p) (dotPosition it) \<noteq> Some s))"
  using assms
proof (induction its)
  case Nil
  then show ?case by (simp add: items_wf_def)
next
  case (Cons item rest)
  from Cons.prems obtain p where p: "find_production g (productionId item) = Some p"
    by (auto simp: item_universe_def)
  from Cons.IH Cons.prems obtain nx where
    nx: "goto_items g s rest = Inr nx" "items_wf g nx"
    "set nx \<subseteq> (\<lambda>it. it\<lparr>dotPosition := dotPosition it + 1\<rparr>) ` set rest"
    "nx = [] \<longleftrightarrow> (\<forall>it \<in> set rest. \<forall>p. find_production g (productionId it) = Some p
                 \<longrightarrow> nth_opt (body p) (dotPosition it) \<noteq> Some s)"
    by auto
  show ?case
  proof (cases "nth_opt (body p) (dotPosition item) = Some s")
    case False
    with p nx show ?thesis by auto
  next
    case True
    let ?adv = "item\<lparr>dotPosition := dotPosition item + 1\<rparr>"
    have "dotPosition item < length (body p)"
      using True by (auto simp: nth_opt_def split: if_splits)
    then have u: "?adv \<in> item_universe g"
      using p by (auto simp: item_universe_def)
    have "?adv \<notin> set nx"
    proof
      assume "?adv \<in> set nx"
      with nx(3) obtain it where it: "it \<in> set rest"
        "?adv = it\<lparr>dotPosition := dotPosition it + 1\<rparr>" by auto
      then have "it = item"
        using advance_inj [of item it] by simp
      with it(1) Cons.prems(2) show False by simp
    qed
    with p nx True u show ?thesis
      by (auto simp: items_wf_def)
  qed
qed


lemma inj_item_key: "inj_on item_key A"
  by (rule inj_onI) (simp add: item_key_def)

lemma areItemSetsEqual_mset: "areItemSetsEqual a b \<longleftrightarrow> mset a = mset b"
proof
  assume eq: "areItemSetsEqual a b"
  then have "list_all2 areItemsEqual (sort_key item_key a) (sort_key item_key b)"
    by (simp add: areItemSetsEqual_def split: if_splits)
  then have "sort_key item_key a = sort_key item_key b"
    by (simp add: list_all2_conv_all_nth areItemsEqual_eq list_eq_iff_nth_eq)
  then have "mset (sort_key item_key a) = mset (sort_key item_key b)" by simp
  then show "mset a = mset b" by simp
next
  assume m: "mset a = mset b"
  then have len: "length a = length b" by (rule mset_eq_length)
  have "sort_key item_key a = sort_key item_key b"
    by (rule sort_key_inj_key_eq) (simp_all add: m inj_item_key)
  then have "list_all2 areItemsEqual (sort_key item_key a) (sort_key item_key b)"
    by (simp add: list_all2_conv_all_nth areItemsEqual_eq)
  with len show "areItemSetsEqual a b" by (simp add: areItemSetsEqual_def)
qed

lemma areItemSetsEqual_set:
  "distinct a \<Longrightarrow> distinct b \<Longrightarrow> areItemSetsEqual a b \<longleftrightarrow> set a = set b"
  by (simp add: areItemSetsEqual_mset set_eq_iff_mset_eq_distinct)

lemma findIndex_Some: "findIndex P xs = Some k \<Longrightarrow> k < length xs \<and> P (xs ! k)"
proof (induction xs arbitrary: k)
  case Nil
  then show ?case by simp
next
  case (Cons x xs)
  then show ?case by (auto split: if_splits)
qed

lemma findIndex_None: "findIndex P xs = None \<longleftrightarrow> (\<forall>x \<in> set xs. \<not> P x)"
  by (induction xs) auto

text \<open>
  The invariant of the construction loop: the list is not empty and starts with the initial
  item set; ids are list positions; item sets are well formed and pairwise different as sets;
  and every recorded transition avoids the two markers and leads to a state whose items equal
  the goto of its source.
\<close>

definition dfa_inv :: "grammar \<Rightarrow> lr_item list \<Rightarrow> dfa_state list \<Rightarrow> bool" where
  "dfa_inv g init states \<longleftrightarrow>
     states \<noteq> [] \<and> items (states ! 0) = init
     \<and> (\<forall>k < length states. state_id (states ! k) = k)
     \<and> (\<forall>st \<in> set states. items_wf g (items st))
     \<and> distinct (map (\<lambda>st. set (items st)) states)
     \<and> (\<forall>st \<in> set states. \<forall>(s, t) \<in> set (transitions st).
           s \<noteq> DOLLAR \<and> s \<noteq> EPS \<and> t < length states
           \<and> (\<exists>C. getGoto (items st) s g = Inr C
                 \<and> areItemSetsEqual (items (states ! t)) C))"

lemma set_AList_update: "set (AList.update k v al) \<subseteq> insert (k, v) (set al)"
  by (induction al) auto

lemma dfa_inv_append:
  assumes inv: "dfa_inv g init xs" and wf: "items_wf g C"
    and new: "\<forall>st \<in> set xs. set (items st) \<noteq> set C"
  shows "dfa_inv g init (xs @ [\<lparr>state_id = length xs, items = C, transitions = []\<rparr>])"
proof -
  let ?new = "\<lparr>state_id = length xs, items = C, transitions = []\<rparr>"
  from inv have ne: "xs \<noteq> []" by (simp add: dfa_inv_def)
  have 1: "items ((xs @ [?new]) ! 0) = init"
    using inv ne by (simp add: dfa_inv_def nth_append)
  have 2: "\<forall>k < length (xs @ [?new]). state_id ((xs @ [?new]) ! k) = k"
    using inv by (auto simp: dfa_inv_def nth_append)
  have 3: "\<forall>st \<in> set (xs @ [?new]). items_wf g (items st)"
    using inv wf by (auto simp: dfa_inv_def)
  have 4: "distinct (map (\<lambda>st. set (items st)) (xs @ [?new]))"
    using inv new by (auto simp: dfa_inv_def)
  have 5: "\<forall>st \<in> set (xs @ [?new]). \<forall>(s, t) \<in> set (transitions st).
           s \<noteq> DOLLAR \<and> s \<noteq> EPS \<and> t < length (xs @ [?new])
           \<and> (\<exists>C. getGoto (items st) s g = Inr C
                 \<and> areItemSetsEqual (items ((xs @ [?new]) ! t)) C)"
  proof (intro ballI)
    fix st x assume st: "st \<in> set (xs @ [?new])" and x: "x \<in> set (transitions st)"
    obtain s t where xe: "x = (s, t)" by (cases x)
    from st x have stx: "st \<in> set xs" by auto
    with inv x xe have "s \<noteq> DOLLAR \<and> s \<noteq> EPS \<and> t < length xs
        \<and> (\<exists>C. getGoto (items st) s g = Inr C \<and> areItemSetsEqual (items (xs ! t)) C)"
      unfolding dfa_inv_def by blast
    then show "case x of (s, t) \<Rightarrow> s \<noteq> DOLLAR \<and> s \<noteq> EPS \<and> t < length (xs @ [?new])
        \<and> (\<exists>C. getGoto (items st) s g = Inr C
              \<and> areItemSetsEqual (items ((xs @ [?new]) ! t)) C)"
      by (auto simp: xe nth_append)
  qed
  show ?thesis
    unfolding dfa_inv_def using 1 2 3 4 5 by simp
qed

lemma dfa_inv_set_transition:
  assumes inv: "dfa_inv g init xs" and i: "i < length xs"
    and s: "s \<noteq> DOLLAR" "s \<noteq> EPS" and k: "k < length xs"
    and gt: "getGoto (items (xs ! i)) s g = Inr C"
    and eq: "areItemSetsEqual (items (xs ! k)) C"
  shows "dfa_inv g init (xs[i := set_transition (xs ! i) s k])"
proof (cases "s = PROTO")
  case True
  then have "xs[i := set_transition (xs ! i) s k] = xs"
    by (simp add: set_transition_def)
  with inv show ?thesis by simp
next
  case np: False
  let ?st' = "set_transition (xs ! i) s k"
  let ?xs' = "xs[i := ?st']"
  have it: "items (?xs' ! j) = items (xs ! j)" if "j < length xs" for j
    using that np by (cases "j = i") (simp_all add: set_transition_def)
  have id: "state_id (?xs' ! j) = state_id (xs ! j)" if "j < length xs" for j
    using that np by (cases "j = i") (simp_all add: set_transition_def)
  from inv have ne: "xs \<noteq> []" by (simp add: dfa_inv_def)
  have 1: "items (?xs' ! 0) = init"
    using inv ne it [of 0] by (simp add: dfa_inv_def)
  have 2: "\<forall>j < length ?xs'. state_id (?xs' ! j) = j"
    using inv id by (simp add: dfa_inv_def)
  have m: "map (\<lambda>st. set (items st)) ?xs' = map (\<lambda>st. set (items st)) xs"
    by (rule nth_equalityI) (simp_all add: it)
  have 3: "\<forall>st \<in> set ?xs'. items_wf g (items st)"
  proof
    fix st assume "st \<in> set ?xs'"
    then obtain j where "j < length xs" "st = ?xs' ! j"
      by (auto simp: in_set_conv_nth)
    with inv it [of j] show "items_wf g (items st)"
      by (simp add: dfa_inv_def)
  qed
  have 4: "distinct (map (\<lambda>st. set (items st)) ?xs')"
    using inv by (simp add: m dfa_inv_def)
  have 5: "\<forall>st \<in> set ?xs'. \<forall>(a, t) \<in> set (transitions st).
           a \<noteq> DOLLAR \<and> a \<noteq> EPS \<and> t < length ?xs'
           \<and> (\<exists>C. getGoto (items st) a g = Inr C
                 \<and> areItemSetsEqual (items (?xs' ! t)) C)"
  proof (intro ballI)
    fix st x assume st: "st \<in> set ?xs'" and x: "x \<in> set (transitions st)"
    obtain a t where xe: "x = (a, t)" by (cases x)
    from st obtain j where j: "j < length xs" "st = ?xs' ! j"
      by (auto simp: in_set_conv_nth)
    have old: "a \<noteq> DOLLAR \<and> a \<noteq> EPS \<and> t < length xs
        \<and> (\<exists>C. getGoto (items (xs ! j)) a g = Inr C \<and> areItemSetsEqual (items (xs ! t)) C)"
      if "(a, t) \<in> set (transitions (xs ! j))"
    proof -
      have "xs ! j \<in> set xs" using j(1) by simp
      with inv that show ?thesis unfolding dfa_inv_def by blast
    qed
    have "a \<noteq> DOLLAR \<and> a \<noteq> EPS \<and> t < length xs
        \<and> (\<exists>C. getGoto (items (xs ! j)) a g = Inr C \<and> areItemSetsEqual (items (xs ! t)) C)"
    proof (cases "j = i")
      case False
      with j x xe have "(a, t) \<in> set (transitions (xs ! j))" by simp
      then show ?thesis by (rule old)
    next
      case True
      with j x xe i np have "(a, t) \<in> set (AList.update s k (transitions (xs ! i)))"
        by (simp add: set_transition_def)
      with set_AList_update have "(a, t) = (s, k) \<or> (a, t) \<in> set (transitions (xs ! i))"
        by fastforce
      then show ?thesis
      proof
        assume "(a, t) = (s, k)"
        with s k gt eq True show ?thesis by auto
      next
        assume "(a, t) \<in> set (transitions (xs ! i))"
        with True old show ?thesis by simp
      qed
    qed
    then show "case x of (a, t) \<Rightarrow> a \<noteq> DOLLAR \<and> a \<noteq> EPS \<and> t < length ?xs'
        \<and> (\<exists>C. getGoto (items st) a g = Inr C
              \<and> areItemSetsEqual (items (?xs' ! t)) C)"
      using j it by (auto simp: xe)
  qed
  show ?thesis
    unfolding dfa_inv_def using 1 2 3 4 5 ne by simp
qed


lemma getGoto_wf:
  assumes "items_wf g its"
  shows "\<exists>C. getGoto its s g = Inr C \<and> items_wf g C"
proof -
  from assms goto_items_wf [of its g s] obtain nx where
    "goto_items g s its = Inr nx" "items_wf g nx"
    by (auto simp: items_wf_def)
  with getClosure_wf [of g nx] show ?thesis
    by (auto simp: getGoto_def)
qed

lemma dfa_symbol_inv:
  assumes inv: "dfa_inv g init xs" and i: "i < length xs"
  shows "\<exists>xs'. dfa_symbol g i s xs = Inr xs' \<and> dfa_inv g init xs' \<and> length xs \<le> length xs'"
proof (cases "s = DOLLAR \<or> s = EPS")
  case True
  with inv show ?thesis by (auto simp: dfa_symbol_def)
next
  case False
  have wfi: "items_wf g (items (xs ! i))"
    using inv i by (simp add: dfa_inv_def)
  from getGoto_wf [OF wfi, of s] obtain C where
    gt: "getGoto (items (xs ! i)) s g = Inr C" and wfC: "items_wf g C"
    by blast
  show ?thesis
  proof (cases "length C = 0")
    case True
    with inv gt False show ?thesis by (simp add: dfa_symbol_def)
  next
    case ne: False
    show ?thesis
    proof (cases "findIndex (\<lambda>st. areItemSetsEqual (items st) C) xs")
      case (Some k)
      from findIndex_Some [OF Some] have k: "k < length xs"
        and eq: "areItemSetsEqual (items (xs ! k)) C" by simp_all
      from False have s: "s \<noteq> DOLLAR" "s \<noteq> EPS" by simp_all
      have "dfa_inv g init (xs[i := set_transition (xs ! i) s k])"
        by (rule dfa_inv_set_transition [OF inv i s k gt eq])
      with gt False ne Some show ?thesis by (simp add: dfa_symbol_def)
    next
      case None
      let ?new = "\<lparr>state_id = length xs, items = C, transitions = []\<rparr>"
      let ?xs = "xs @ [?new]"
      have "\<forall>st \<in> set xs. set (items st) \<noteq> set C"
      proof
        fix st assume st: "st \<in> set xs"
        with None have "\<not> areItemSetsEqual (items st) C"
          by (simp add: findIndex_None)
        moreover have "distinct (items st)"
          using inv st by (simp add: dfa_inv_def items_wf_def)
        moreover have "distinct C" using wfC by (simp add: items_wf_def)
        ultimately show "set (items st) \<noteq> set C"
          by (simp add: areItemSetsEqual_set)
      qed
      then have inv2: "dfa_inv g init ?xs"
        by (rule dfa_inv_append [OF inv wfC])
      from False have s: "s \<noteq> DOLLAR" "s \<noteq> EPS" by simp_all
      have i2: "i < length ?xs" using i by simp
      have k2: "length xs < length ?xs" by simp
      have gt2: "getGoto (items (?xs ! i)) s g = Inr C"
        using gt i by (simp add: nth_append)
      have eq2: "areItemSetsEqual (items (?xs ! length xs)) C"
        by (simp add: areItemSetsEqual_mset)
      have "dfa_inv g init (?xs[i := set_transition (?xs ! i) s (length xs)])"
        by (rule dfa_inv_set_transition [OF inv2 i2 s k2 gt2 eq2])
      with gt False ne None show ?thesis
        by (simp add: dfa_symbol_def Let_def)
    qed
  qed
qed

lemma dfa_fold_inv:
  assumes "dfa_inv g init xs" and "i < length xs"
  shows "\<exists>xs'. fold_err (dfa_symbol g i) syms xs = Inr xs' \<and> dfa_inv g init xs'
           \<and> length xs \<le> length xs'"
  using assms
proof (induction syms arbitrary: xs)
  case Nil
  then show ?case by simp
next
  case (Cons s syms)
  from dfa_symbol_inv [OF Cons.prems, of s] obtain xs1 where
    1: "dfa_symbol g i s xs = Inr xs1" "dfa_inv g init xs1" "length xs \<le> length xs1"
    by blast
  with Cons.prems(2) have "i < length xs1" by simp
  from Cons.IH [OF 1(2) this] obtain xs2 where
    "fold_err (dfa_symbol g i) syms xs1 = Inr xs2" "dfa_inv g init xs2"
    "length xs1 \<le> length xs2"
    by blast
  with 1 show ?case by auto
qed

text \<open>The item sets are distinct subsets of a finite set, which bounds the number of states and
  hence the loop.\<close>

lemma dfa_inv_bound:
  assumes "dfa_inv g init xs"
  shows "length xs \<le> 2 ^ card (item_universe g)"
proof -
  let ?f = "\<lambda>st. set (items st)"
  from assms have d: "distinct (map ?f xs)" by (simp add: dfa_inv_def)
  have sub: "set (map ?f xs) \<subseteq> Pow (item_universe g)"
    using assms by (auto simp: dfa_inv_def items_wf_def)
  have "length xs = card (set (map ?f xs))"
    using distinct_card [OF d] by simp
  also have "\<dots> \<le> card (Pow (item_universe g))"
    by (rule card_mono [OF _ sub]) (simp add: finite_item_universe)
  also have "\<dots> = 2 ^ card (item_universe g)"
    by (rule card_Pow [OF finite_item_universe])
  finally show ?thesis .
qed

lemma dfa_loop_returns:
  assumes "dfa_inv g init xs" and "i \<le> length xs"
  shows "\<exists>final. dfa_loop g syms i xs = Some (Inr final) \<and> dfa_inv g init final"
  using assms
proof (induction "2 ^ card (item_universe g) - i" arbitrary: i xs rule: less_induct)
  case less
  show ?case
  proof (cases "i < length xs")
    case False
    with less.prems show ?thesis by (subst dfa_loop.simps) simp
  next
    case True
    from dfa_fold_inv [OF less.prems(1) True, of syms] obtain xs' where
      f: "fold_err (dfa_symbol g i) syms xs = Inr xs'" and inv': "dfa_inv g init xs'"
      and le: "length xs \<le> length xs'"
      by blast
    have "i < 2 ^ card (item_universe g)"
      using True dfa_inv_bound [OF less.prems(1)] by simp
    then have "2 ^ card (item_universe g) - (i + 1) < 2 ^ card (item_universe g) - i"
      by simp
    moreover have "i + 1 \<le> length xs'" using True le by simp
    ultimately obtain final where
      "dfa_loop g syms (i + 1) xs' = Some (Inr final)" "dfa_inv g init final"
      using less.hyps [OF _ inv'] by blast
    with True f show ?thesis by (subst dfa_loop.simps) simp
  qed
qed

text \<open>The five states of the automaton of \<open>S \<rightarrow> a S | b\<close>.\<close>

definition dfa_ab :: "dfa_state list" where
  "dfa_ab =
     [\<lparr>state_id = 0,
       items = [\<lparr>productionId = 0, dotPosition = 0\<rparr>, \<lparr>productionId = 1, dotPosition = 0\<rparr>,
                \<lparr>productionId = 2, dotPosition = 0\<rparr>],
       transitions = [(asc ''S'', 1), (asc ''a'', 2), (asc ''b'', 3)]\<rparr>,
      \<lparr>state_id = 1, items = [\<lparr>productionId = 0, dotPosition = 1\<rparr>], transitions = []\<rparr>,
      \<lparr>state_id = 2,
       items = [\<lparr>productionId = 1, dotPosition = 1\<rparr>, \<lparr>productionId = 1, dotPosition = 0\<rparr>,
                \<lparr>productionId = 2, dotPosition = 0\<rparr>],
       transitions = [(asc ''S'', 4), (asc ''a'', 2), (asc ''b'', 3)]\<rparr>,
      \<lparr>state_id = 3, items = [\<lparr>productionId = 2, dotPosition = 1\<rparr>], transitions = []\<rparr>,
      \<lparr>state_id = 4, items = [\<lparr>productionId = 1, dotPosition = 2\<rparr>], transitions = []\<rparr>]"

lemma buildDFA_g_ab: "buildDFA (augmentGrammar g_ab) = Some (Inr dfa_ab)"
  by code_simp

text \<open>
  For every augmented grammar \<open>buildDFA\<close> returns a list of states; the item set of state 0
  is the closure of the single item (production 0, dot 0); every state's id is its index; no
  two distinct states have equal item sets, neither by \<open>areItemSetsEqual\<close> nor as sets; and
  every recorded transition is labelled with a symbol other than \<open>'$'\<close> and \<open>'\<epsilon>'\<close> and leads
  to the state whose item set equals the goto of the source state on that symbol.
\<close>

lemma buildDFA_states:
  "\<exists>states. buildDFA (augmentGrammar g) = Some (Inr states)
     \<and> states \<noteq> []
     \<and> getClosure [\<lparr>productionId = 0, dotPosition = 0\<rparr>] (augmentGrammar g) =
         Inr (items (states ! 0))
     \<and> (\<forall>k < length states. state_id (states ! k) = k)
     \<and> (\<forall>j < length states. \<forall>k < length states. j \<noteq> k \<longrightarrow>
           \<not> areItemSetsEqual (items (states ! j)) (items (states ! k))
           \<and> set (items (states ! j)) \<noteq> set (items (states ! k)))
     \<and> (\<forall>st \<in> set states. \<forall>(s, t) \<in> set (transitions st).
           s \<noteq> DOLLAR \<and> s \<noteq> EPS \<and> t < length states
           \<and> (\<exists>C. getGoto (items st) s (augmentGrammar g) = Inr C
                 \<and> areItemSetsEqual (items (states ! t)) C))"
proof -
  let ?g = "augmentGrammar g"
  let ?start = "\<lparr>productionId = 0, dotPosition = 0\<rparr>"
  obtain p0 ps where prods: "productions ?g = p0 # ps" and id0: "prod_id p0 = 0"
    by (simp add: augmentGrammar_def Let_def)
  have "p0 \<in> set (productions ?g)" using prods by simp
  from start_item_universe [OF this] id0 have "items_wf ?g [?start]"
    by (simp add: items_wf_def)
  from getClosure_wf [OF this] obtain init where
    init: "getClosure [?start] ?g = Inr init" and wf: "items_wf ?g init"
    by blast
  let ?s0 = "[\<lparr>state_id = 0, items = init, transitions = []\<rparr>]"
  have inv0: "dfa_inv ?g init ?s0"
    using wf by (simp add: dfa_inv_def)
  from dfa_loop_returns [OF inv0, of 0 "nonTerminals ?g @ terminals ?g"] obtain final where
    fin: "dfa_loop ?g (nonTerminals ?g @ terminals ?g) 0 ?s0 = Some (Inr final)"
    and inv: "dfa_inv ?g init final"
    by auto
  have b: "buildDFA ?g = Some (Inr final)"
    using prods id0 init fin by (simp add: buildDFA_def)
  have d: "\<not> areItemSetsEqual (items (final ! j)) (items (final ! k))
      \<and> set (items (final ! j)) \<noteq> set (items (final ! k))"
    if "j < length final" "k < length final" "j \<noteq> k" for j k
  proof -
    from inv have "distinct (map (\<lambda>st. set (items st)) final)"
      by (simp add: dfa_inv_def)
    with that have ne: "set (items (final ! j)) \<noteq> set (items (final ! k))"
      by (auto simp: distinct_conv_nth)
    moreover have "distinct (items (final ! j))" "distinct (items (final ! k))"
      using inv that by (simp_all add: dfa_inv_def items_wf_def)
    ultimately show ?thesis by (simp add: areItemSetsEqual_set)
  qed
  from inv have "final \<noteq> []" "items (final ! 0) = init"
    "\<forall>k < length final. state_id (final ! k) = k"
    "\<forall>st \<in> set final. \<forall>(s, t) \<in> set (transitions st).
           s \<noteq> DOLLAR \<and> s \<noteq> EPS \<and> t < length final
           \<and> (\<exists>C. getGoto (items st) s ?g = Inr C
                 \<and> areItemSetsEqual (items (final ! t)) C)"
    by (simp_all add: dfa_inv_def)
  with b init d show ?thesis by blast
qed


lemma buildDFA_states_g_ab:
  "buildDFA (augmentGrammar g_ab) = Some (Inr dfa_ab)
   \<and> getClosure [\<lparr>productionId = 0, dotPosition = 0\<rparr>] (augmentGrammar g_ab) =
       Inr (items (dfa_ab ! 0))
   \<and> state_id (dfa_ab ! 4) = 4
   \<and> \<not> areItemSetsEqual (items (dfa_ab ! 0)) (items (dfa_ab ! 2))
   \<and> asc ''a'' \<noteq> DOLLAR \<and> asc ''a'' \<noteq> EPS
   \<and> (\<exists>C. getGoto (items (dfa_ab ! 0)) (asc ''a'') (augmentGrammar g_ab) = Inr C
         \<and> areItemSetsEqual (items (dfa_ab ! 2)) C)"
proof -
  from buildDFA_states [of g_ab] obtain states where
    b: "buildDFA (augmentGrammar g_ab) = Some (Inr states)"
    and c: "getClosure [\<lparr>productionId = 0, dotPosition = 0\<rparr>] (augmentGrammar g_ab) =
         Inr (items (states ! 0))"
    and i: "\<forall>k < length states. state_id (states ! k) = k"
    and d: "\<forall>j < length states. \<forall>k < length states. j \<noteq> k \<longrightarrow>
           \<not> areItemSetsEqual (items (states ! j)) (items (states ! k))
           \<and> set (items (states ! j)) \<noteq> set (items (states ! k))"
    and t: "\<forall>st \<in> set states. \<forall>(s, t) \<in> set (transitions st).
           s \<noteq> DOLLAR \<and> s \<noteq> EPS \<and> t < length states
           \<and> (\<exists>C. getGoto (items st) s (augmentGrammar g_ab) = Inr C
                 \<and> areItemSetsEqual (items (states ! t)) C)"
    by blast
  from b have st: "states = dfa_ab" by (simp add: buildDFA_g_ab)
  have len: "length dfa_ab = 5" by (simp add: dfa_ab_def)
  have mem: "dfa_ab ! 0 \<in> set dfa_ab" by (simp add: dfa_ab_def)
  have tr: "(asc ''a'', 2) \<in> set (transitions (dfa_ab ! 0))" by (simp add: dfa_ab_def)
  from i len have "state_id (dfa_ab ! 4) = 4" unfolding st by simp
  moreover from d len have "\<not> areItemSetsEqual (items (dfa_ab ! 0)) (items (dfa_ab ! 2))"
    unfolding st by simp
  moreover from t mem tr have "asc ''a'' \<noteq> DOLLAR \<and> asc ''a'' \<noteq> EPS
      \<and> (\<exists>C. getGoto (items (dfa_ab ! 0)) (asc ''a'') (augmentGrammar g_ab) = Inr C
         \<and> areItemSetsEqual (items (dfa_ab ! 2)) C)"
    unfolding st by fastforce
  ultimately show ?thesis
    using c buildDFA_g_ab unfolding st by simp
qed

text \<open>The grammar \<open>S \<rightarrow> __proto__ S | a\<close>, whose terminal \<open>__proto__\<close> is the name under which an
  object keeps its prototype, and the automaton built for its augmentation.\<close>

definition g_proto :: grammar where
  "g_proto =
     \<lparr>productions =
        [\<lparr>prod_id = 0, head = asc ''S'', body = [PROTO, asc ''S'']\<rparr>,
         \<lparr>prod_id = 1, head = asc ''S'', body = [asc ''a'']\<rparr>],
      terminals = [PROTO, asc ''a'', DOLLAR],
      nonTerminals = [asc ''S''],
      startSymbol = asc ''S''\<rparr>"

definition dfa_proto :: "dfa_state list" where
  "dfa_proto =
     [\<lparr>state_id = 0,
       items = [\<lparr>productionId = 0, dotPosition = 0\<rparr>, \<lparr>productionId = 1, dotPosition = 0\<rparr>,
                \<lparr>productionId = 2, dotPosition = 0\<rparr>],
       transitions = [(asc ''S'', 1), (asc ''a'', 3)]\<rparr>,
      \<lparr>state_id = 1, items = [\<lparr>productionId = 0, dotPosition = 1\<rparr>], transitions = []\<rparr>,
      \<lparr>state_id = 2,
       items = [\<lparr>productionId = 1, dotPosition = 1\<rparr>, \<lparr>productionId = 1, dotPosition = 0\<rparr>,
                \<lparr>productionId = 2, dotPosition = 0\<rparr>],
       transitions = [(asc ''S'', 4), (asc ''a'', 3)]\<rparr>,
      \<lparr>state_id = 3, items = [\<lparr>productionId = 2, dotPosition = 1\<rparr>], transitions = []\<rparr>,
      \<lparr>state_id = 4, items = [\<lparr>productionId = 1, dotPosition = 2\<rparr>], transitions = []\<rparr>]"

lemma buildDFA_g_proto: "buildDFA (augmentGrammar g_proto) = Some (Inr dfa_proto)"
  by code_simp

text \<open>
  C8: the transition that a goto result is to record is lost when the symbol is \<open>__proto__\<close>.
  For the grammar \<open>S \<rightarrow> __proto__ S | a\<close> the goto of state 0 on \<open>__proto__\<close> is a new item set,
  which is allocated as state 2, and the goto of state 2 on \<open>__proto__\<close> is the item set of
  state 2 itself, an existing state; the assignment \<open>transitions['__proto__'] = id\<close> stores
  nothing in either case, so neither state has a transition on \<open>__proto__\<close> in the returned
  list, and state 2 is the target of no transition at all.
\<close>

theorem buildDFA_transition_lost:
  "buildDFA (augmentGrammar g_proto) = Some (Inr dfa_proto)
   \<and> PROTO \<in> set (terminals (augmentGrammar g_proto))
   \<and> getGoto (items (dfa_proto ! 0)) PROTO (augmentGrammar g_proto) = Inr (items (dfa_proto ! 2))
   \<and> getGoto (items (dfa_proto ! 2)) PROTO (augmentGrammar g_proto) = Inr (items (dfa_proto ! 2))
   \<and> areItemSetsEqual (items (dfa_proto ! 2)) (items (dfa_proto ! 2))
   \<and> items (dfa_proto ! 2) \<noteq> []
   \<and> map_of (transitions (dfa_proto ! 0)) PROTO = None
   \<and> map_of (transitions (dfa_proto ! 2)) PROTO = None
   \<and> concat (map (map snd \<circ> transitions) dfa_proto) = [1, 3, 4, 3]"
proof -
  have "getGoto (items (dfa_proto ! 0)) PROTO (augmentGrammar g_proto) =
      Inr (items (dfa_proto ! 2))"
    by code_simp
  moreover have "getGoto (items (dfa_proto ! 2)) PROTO (augmentGrammar g_proto) =
      Inr (items (dfa_proto ! 2))"
    by code_simp
  moreover have "areItemSetsEqual (items (dfa_proto ! 2)) (items (dfa_proto ! 2))"
    by code_simp
  moreover have "PROTO \<in> set (terminals (augmentGrammar g_proto))"
    by (simp add: augmentGrammar_def g_proto_def Let_def)
  moreover have "map_of (transitions (dfa_proto ! 0)) PROTO = None"
    "map_of (transitions (dfa_proto ! 2)) PROTO = None"
    by (simp_all add: dfa_proto_def PROTO_def asc_def)
  ultimately show ?thesis
    using buildDFA_g_proto by (simp add: dfa_proto_def)
qed

section \<open>Table construction: properties\<close>

text \<open>The tuple by which reduce conflicts are deduplicated, and the keys of the conflicts whose
  candidate carries a production id.\<close>

definition conflict_key :: "conflict \<Rightarrow> nat \<times> symbol \<times> conflict_kind \<times> nat option" where
  "conflict_key c = (c_state c, c_symbol c, c_type c, entry_value (c_new c))"

definition reduce_keys :: "conflict list \<Rightarrow> (nat \<times> symbol \<times> conflict_kind \<times> nat option) list" where
  "reduce_keys cs = map conflict_key (filter (\<lambda>c. entry_value (c_new c) \<noteq> None) cs)"

text \<open>A completed item whose head is the start symbol.\<close>

definition accept_item :: "grammar \<Rightarrow> lr_item \<Rightarrow> bool" where
  "accept_item g it \<longleftrightarrow>
     (case find_production g (productionId it) of
        None \<Rightarrow> False
      | Some prd \<Rightarrow> isComplete it prd \<and> head prd = startSymbol g)"

text \<open>What the assignments stored in a cell, as opposed to what a read of the cell returns.\<close>

definition own_cell ::
  "(nat \<rightharpoonup> (symbol \<rightharpoonup> action_entry)) \<Rightarrow> nat \<Rightarrow> symbol \<Rightarrow> action_entry option" where
  "own_cell act sid t = (case act sid of None \<Rightarrow> None | Some row \<Rightarrow> row t)"

lemma PROTO_inherited: "PROTO \<in> set object_prototype_keys"
  by (simp add: object_prototype_keys_def PROTO_def)

lemma get_cell_PROTO: "act sid \<noteq> None \<Longrightarrow> get_cell act sid PROTO \<noteq> None"
  by (auto simp: get_cell_def row_get_def PROTO_inherited split: option.splits)

lemma get_cell_Val: "get_cell act sid t = Some (Val e) \<longleftrightarrow> own_cell act sid t = Some e"
  by (auto simp: get_cell_def row_get_def own_cell_def split: option.splits if_splits)

lemma get_cell_None: "get_cell act sid t = None \<Longrightarrow> own_cell act sid t = None"
  by (auto simp: get_cell_def row_get_def own_cell_def split: option.splits if_splits)

text \<open>A row whose prototype was not replaced returns, for a key that is not the name of an
  inherited property, what was stored.\<close>

lemma get_cell_own:
  assumes "own_cell act sid PROTO = None" and "t \<notin> set object_prototype_keys"
  shows "get_cell act sid t = map_option Val (own_cell act sid t)"
  using assms by (auto simp: get_cell_def row_get_def own_cell_def split: option.splits)

lemma own_set_cell:
  "own_cell (set_cell act sid k v) s u =
     (if s = sid \<and> u = k then Some v else own_cell act s u)"
  by (auto simp: own_cell_def set_cell_def split: option.splits)

lemma set_cell_row: "set_cell act sid k v s = None \<longleftrightarrow> s \<noteq> sid \<and> act s = None"
  by (simp add: set_cell_def)

lemma get_set_cell:
  assumes "act sid \<noteq> None" and "k \<noteq> PROTO"
  shows "get_cell (set_cell act sid k v) s u =
     (if s = sid \<and> u = k then Some (Val v) else get_cell act s u)"
  using assms by (auto simp: get_cell_def set_cell_def row_get_def split: option.splits)

text \<open>The candidates of every conflict recorded are \<open>Reduce\<close> and \<open>Accept\<close> entries.\<close>

definition new_ok :: "conflict list \<Rightarrow> bool" where
  "new_ok cs \<longleftrightarrow> (\<forall>c \<in> set cs. c_new c = Accept \<or> (\<exists>p. c_new c = Reduce p))"

lemma reduce_candidate_props:
  assumes "reduce_candidate sid pid t (act, cs) = (act', cs')" and "act sid \<noteq> None"
  shows "act' sid \<noteq> None \<and> (\<forall>s. s \<noteq> sid \<longrightarrow> act' s = act s)
     \<and> (\<forall>u. u \<noteq> t \<longrightarrow> get_cell act' sid u = get_cell act sid u
            \<and> own_cell act' sid u = own_cell act sid u)
     \<and> prefix cs cs'
     \<and> (distinct (reduce_keys cs) \<longrightarrow> distinct (reduce_keys cs'))
     \<and> (new_ok cs \<longrightarrow> new_ok cs')
     \<and> (get_cell act sid t \<noteq> None \<longrightarrow> act' = act
          \<and> (\<exists>c \<in> set cs'. c_state c = sid \<and> c_symbol c = t \<and> entry_value (c_new c) = Some pid))
     \<and> (get_cell act sid t = None \<longrightarrow>
          own_cell act' sid t = Some (Reduce pid) \<and> cs' = cs)"
proof (cases "get_cell act sid t")
  case None
  with assms(2) get_cell_PROTO [of act sid] have np: "t \<noteq> PROTO" by auto
  from None assms(1) have eq: "act' = set_cell act sid t (Reduce pid)" "cs' = cs"
    by (auto simp: reduce_candidate_def)
  have 1: "act' sid \<noteq> None" by (simp add: eq set_cell_def)
  have 2: "\<forall>s. s \<noteq> sid \<longrightarrow> act' s = act s" by (simp add: eq set_cell_def)
  have 3: "\<forall>u. u \<noteq> t \<longrightarrow> get_cell act' sid u = get_cell act sid u
            \<and> own_cell act' sid u = own_cell act sid u"
    using assms(2) np by (simp add: eq get_set_cell own_set_cell)
  have 4: "own_cell act' sid t = Some (Reduce pid)" by (simp add: eq own_set_cell)
  from 1 2 3 4 None eq(2) show ?thesis by simp
next
  case (Some e)
  show ?thesis
  proof (cases "list_ex (\<lambda>c. c_state c = sid \<and> c_symbol c = t
      \<and> entry_value (c_new c) = Some pid \<and> c_type c = conflict_kind_of e) cs")
    case True
    with assms Some have "act' = act" "cs' = cs"
      by (auto simp: reduce_candidate_def Let_def)
    with True assms(2) Some show ?thesis
      by (auto simp: list_ex_iff)
  next
    case False
    let ?c = "\<lparr>c_state = sid, c_symbol = t, c_type = conflict_kind_of e, c_existing = e,
      c_new = Reduce pid\<rparr>"
    from assms Some False have eq: "act' = act" "cs' = cs @ [?c]"
      by (auto simp: reduce_candidate_def Let_def)
    have "conflict_key ?c \<notin> set (reduce_keys cs)"
      using False by (auto simp: list_ex_iff reduce_keys_def conflict_key_def entry_value_def)
    then have "distinct (reduce_keys cs) \<longrightarrow> distinct (reduce_keys cs')"
      by (simp add: eq reduce_keys_def entry_value_def)
    then show ?thesis
      using Some assms(2) by (simp add: eq entry_value_def new_ok_def)
  qed
qed

lemma reduce_fold_props:
  assumes "fold (reduce_candidate sid pid) fl (act, cs) = (act', cs')" and "act sid \<noteq> None"
  shows "act' sid \<noteq> None \<and> (\<forall>s. s \<noteq> sid \<longrightarrow> act' s = act s)
     \<and> (\<forall>u. u \<notin> set fl \<or> get_cell act sid u \<noteq> None \<longrightarrow>
           get_cell act' sid u = get_cell act sid u
           \<and> own_cell act' sid u = own_cell act sid u)
     \<and> (\<forall>u \<in> set fl. get_cell act sid u = None \<longrightarrow> own_cell act' sid u = Some (Reduce pid))
     \<and> prefix cs cs'
     \<and> (distinct (reduce_keys cs) \<longrightarrow> distinct (reduce_keys cs'))
     \<and> (new_ok cs \<longrightarrow> new_ok cs')
     \<and> (\<forall>u \<in> set fl. get_cell act sid u \<noteq> None \<longrightarrow>
          (\<exists>c \<in> set cs'. c_state c = sid \<and> c_symbol c = u \<and> entry_value (c_new c) = Some pid))"
  using assms
proof (induction fl arbitrary: act cs)
  case Nil
  then show ?case by simp
next
  case (Cons t fl)
  obtain a1 c1 where 1: "reduce_candidate sid pid t (act, cs) = (a1, c1)"
    by (cases "reduce_candidate sid pid t (act, cs)")
  with Cons.prems have 2: "fold (reduce_candidate sid pid) fl (a1, c1) = (act', cs')"
    by simp
  note p1 = reduce_candidate_props [OF 1 Cons.prems(2)]
  from p1 have r1: "a1 sid \<noteq> None" by simp
  note p2 = Cons.IH [OF 2 r1]
  have other1: "get_cell a1 sid u = get_cell act sid u \<and> own_cell a1 sid u = own_cell act sid u"
    if "u \<noteq> t \<or> get_cell act sid t \<noteq> None" for u
    using p1 that by (cases "u = t") auto
  have new1: "get_cell a1 sid t = Some (Val (Reduce pid))" if "get_cell act sid t = None"
    using p1 that by (simp add: get_cell_Val)
  have A: "act' sid \<noteq> None" using p2 by simp
  have B: "\<forall>s. s \<noteq> sid \<longrightarrow> act' s = act s" using p1 p2 by simp
  have D: "get_cell act' sid u = get_cell act sid u \<and> own_cell act' sid u = own_cell act sid u"
    if "u \<notin> set (t # fl) \<or> get_cell act sid u \<noteq> None" for u
  proof -
    from that have a: "u \<noteq> t \<or> get_cell act sid t \<noteq> None" by auto
    note o1 = other1 [OF a]
    from that o1 have "u \<notin> set fl \<or> get_cell a1 sid u \<noteq> None" by auto
    with p2 have "get_cell act' sid u = get_cell a1 sid u
        \<and> own_cell act' sid u = own_cell a1 sid u" by blast
    with o1 show ?thesis by simp
  qed
  have E: "own_cell act' sid u = Some (Reduce pid)"
    if "u \<in> set (t # fl)" "get_cell act sid u = None" for u
  proof (cases "u = t")
    case True
    with new1 that(2) have g: "get_cell a1 sid u = Some (Val (Reduce pid))" by simp
    then have "get_cell a1 sid u \<noteq> None" by simp
    with p2 have "get_cell act' sid u = get_cell a1 sid u" by blast
    with g have "get_cell act' sid u = Some (Val (Reduce pid))" by simp
    then show ?thesis by (simp only: get_cell_Val)
  next
    case False
    with that(1) have u: "u \<in> set fl" by simp
    from other1 [of u] False that(2) have "get_cell a1 sid u = None" by simp
    with p2 u show ?thesis by blast
  qed
  have F: "prefix cs cs'" using p1 p2 by (blast intro: prefix_order.trans)
  have G: "distinct (reduce_keys cs) \<longrightarrow> distinct (reduce_keys cs')" using p1 p2 by blast
  have H: "new_ok cs \<longrightarrow> new_ok cs'" using p1 p2 by blast
  have I: "\<exists>c \<in> set cs'. c_state c = sid \<and> c_symbol c = u \<and> entry_value (c_new c) = Some pid"
    if u: "u \<in> set (t # fl)" and occ: "get_cell act sid u \<noteq> None" for u
  proof (cases "u = t")
    case True
    with p1 occ obtain c where "c \<in> set c1" "c_state c = sid" "c_symbol c = u"
      "entry_value (c_new c) = Some pid" by blast
    moreover have "set c1 \<subseteq> set cs'" using p2 by (blast dest: set_mono_prefix)
    ultimately show ?thesis by blast
  next
    case False
    with u have "u \<in> set fl" by simp
    moreover have "get_cell a1 sid u \<noteq> None" using occ other1 [of u] False by simp
    ultimately show ?thesis using p2 by blast
  qed
  from A B D E F G H I show ?case by blast
qed


text \<open>A completed item of a production other than the start symbol's is a reduce candidate for
  the members of the FOLLOW set of its head.\<close>

definition candidate_for :: "grammar \<Rightarrow> first_follow \<Rightarrow> symbol \<Rightarrow> lr_item \<Rightarrow> bool" where
  "candidate_for g ff t it \<longleftrightarrow>
     (case find_production g (productionId it) of
        None \<Rightarrow> False
      | Some prd \<Rightarrow>
          isComplete it prd \<and> head prd \<noteq> startSymbol g
          \<and> (case ff_follow ff (head prd) of None \<Rightarrow> False | Some fl \<Rightarrow> t \<in> set fl))"

text \<open>The production id of the first reduce candidate for a symbol, in the order of the item
  array.\<close>

definition first_candidate :: "grammar \<Rightarrow> first_follow \<Rightarrow> lr_item list \<Rightarrow> symbol \<Rightarrow> nat option" where
  "first_candidate g ff its t = map_option productionId (find (candidate_for g ff t) its)"

lemma find_production_id: "find_production g i = Some p \<Longrightarrow> prod_id p = i"
  by (auto simp: find_production_def find_Some_iff)

lemma install_accept_props:
  assumes "install_accept sid (act, cs) = (act', cs')" and "act sid \<noteq> None"
  shows "act' sid \<noteq> None \<and> (\<forall>s. s \<noteq> sid \<longrightarrow> act' s = act s)
     \<and> (\<forall>u. get_cell act' sid u = (if u = DOLLAR then Some (Val Accept) else get_cell act sid u))
     \<and> prefix cs cs'
     \<and> reduce_keys cs' = reduce_keys cs
     \<and> (new_ok cs \<longrightarrow> new_ok cs')
     \<and> (\<forall>e. get_cell act sid DOLLAR = Some e \<and> e \<noteq> Val Accept \<longrightarrow>
           cs' = cs @ [\<lparr>c_state = sid, c_symbol = DOLLAR, c_type = conflict_kind_of e,
                         c_existing = e, c_new = Accept\<rparr>])"
proof -
  have np: "DOLLAR \<noteq> PROTO" by (simp add: DOLLAR_def PROTO_def asc_def)
  from assms(1) have a: "act' = set_cell act sid DOLLAR Accept"
    by (simp add: install_accept_def)
  have 1: "act' sid \<noteq> None" "\<forall>s. s \<noteq> sid \<longrightarrow> act' s = act s"
    by (simp_all add: a set_cell_def)
  have 2: "\<forall>u. get_cell act' sid u = (if u = DOLLAR then Some (Val Accept) else get_cell act sid u)"
    using assms(2) np by (simp add: a get_set_cell)
  from assms(1) have 3: "prefix cs cs' \<and> reduce_keys cs' = reduce_keys cs
     \<and> (new_ok cs \<longrightarrow> new_ok cs')
     \<and> (\<forall>e. get_cell act sid DOLLAR = Some e \<and> e \<noteq> Val Accept \<longrightarrow>
           cs' = cs @ [\<lparr>c_state = sid, c_symbol = DOLLAR, c_type = conflict_kind_of e,
                         c_existing = e, c_new = Accept\<rparr>])"
    by (auto simp: install_accept_def reduce_keys_def entry_value_def new_ok_def
        split: option.splits if_splits)
  from 1 2 3 show ?thesis by simp
qed

lemma process_item_accept:
  assumes "accept_item g it"
  shows "process_item g ff sid it (act, cs) = Inr (install_accept sid (act, cs))"
  using assms by (auto simp: accept_item_def process_item_def split: option.splits)

lemma accept_not_candidate: "accept_item g it \<Longrightarrow> \<not> candidate_for g ff u it"
  by (auto simp: accept_item_def candidate_for_def split: option.splits)

text \<open>An item that is not accepting: each of its candidates is installed in a cell that reads
  as empty and is reported for a cell that does not.\<close>

lemma process_item_other:
  assumes "\<not> accept_item g it" and "process_item g ff sid it (act, cs) = Inr (act', cs')"
    and "act sid \<noteq> None"
  shows "act' sid \<noteq> None \<and> (\<forall>s. s \<noteq> sid \<longrightarrow> act' s = act s)
     \<and> (\<forall>u. get_cell act' sid u =
            (case get_cell act sid u of
               Some e \<Rightarrow> Some e
             | None \<Rightarrow> if candidate_for g ff u it then Some (Val (Reduce (productionId it)))
                       else None))
     \<and> prefix cs cs'
     \<and> (distinct (reduce_keys cs) \<longrightarrow> distinct (reduce_keys cs'))
     \<and> (new_ok cs \<longrightarrow> new_ok cs')
     \<and> (\<forall>u. candidate_for g ff u it \<and> get_cell act sid u \<noteq> None \<longrightarrow>
          (\<exists>c \<in> set cs'. c_state c = sid \<and> c_symbol c = u
             \<and> entry_value (c_new c) = Some (productionId it)))"
proof -
  from assms(2) obtain prd where prd: "find_production g (productionId it) = Some prd"
    by (cases "find_production g (productionId it)") (auto simp: process_item_def)
  note pid = find_production_id [OF prd]
  show ?thesis
  proof (cases "isComplete it prd \<and> ff_follow ff (head prd) \<noteq> None")
    case False
    with assms prd have "act' = act" "cs' = cs"
      by (auto simp: process_item_def accept_item_def set_get_def
          split: if_splits option.splits sum.splits js_val.splits)
    moreover from False prd have "\<not> candidate_for g ff u it" for u
      by (auto simp: candidate_for_def)
    ultimately show ?thesis using assms(3) by (auto split: option.splits)
  next
    case True
    then obtain fl where fl: "ff_follow ff (head prd) = Some fl" by auto
    from True assms(1) prd have ns: "head prd \<noteq> startSymbol g"
      by (auto simp: accept_item_def)
    with assms(2) prd True fl
    have f: "fold (reduce_candidate sid (productionId it)) fl (act, cs) = (act', cs')"
      by (simp add: process_item_def set_get_def pid)
    have c: "candidate_for g ff u it \<longleftrightarrow> u \<in> set fl" for u
      using prd True fl ns by (simp add: candidate_for_def)
    note p = reduce_fold_props [OF f assms(3)]
    have cells: "get_cell act' sid u =
            (case get_cell act sid u of
               Some e \<Rightarrow> Some e
             | None \<Rightarrow> if candidate_for g ff u it then Some (Val (Reduce (productionId it)))
                       else None)" for u
    proof (cases "get_cell act sid u")
      case (Some e)
      with p have "get_cell act' sid u = get_cell act sid u" by blast
      with Some show ?thesis by simp
    next
      case None
      show ?thesis
      proof (cases "u \<in> set fl")
        case True
        with p None have "own_cell act' sid u = Some (Reduce (productionId it))" by blast
        then have "get_cell act' sid u = Some (Val (Reduce (productionId it)))"
          by (simp only: get_cell_Val)
        with None True c show ?thesis by simp
      next
        case False
        with p have "get_cell act' sid u = get_cell act sid u" by blast
        with None False c show ?thesis by simp
      qed
    qed
    from p cells c show ?thesis by simp
  qed
qed


lemma first_candidate_Cons:
  "first_candidate g ff (it # its) u =
     (if candidate_for g ff u it then Some (productionId it) else first_candidate g ff its u)"
  by (simp add: first_candidate_def)

text \<open>The loop over the items of a state, from any table in which the state has a row.\<close>

lemma items_loop_props:
  assumes "fold_err (process_item g ff sid) its (act, cs) = Inr (act', cs')"
    and "act sid \<noteq> None"
  shows "act' sid \<noteq> None \<and> (\<forall>s. s \<noteq> sid \<longrightarrow> act' s = act s)
     \<and> (\<forall>u. get_cell act' sid u =
            (if u = DOLLAR \<and> (\<exists>it \<in> set its. accept_item g it) then Some (Val Accept)
             else case get_cell act sid u of
                    Some e \<Rightarrow> Some e
                  | None \<Rightarrow> map_option (\<lambda>p. Val (Reduce p)) (first_candidate g ff its u)))
     \<and> prefix cs cs'
     \<and> (distinct (reduce_keys cs) \<longrightarrow> distinct (reduce_keys cs'))
     \<and> (new_ok cs \<longrightarrow> new_ok cs')
     \<and> (\<forall>e. get_cell act sid DOLLAR = Some e \<and> e \<noteq> Val Accept
            \<and> (\<exists>it \<in> set its. accept_item g it) \<longrightarrow>
          \<lparr>c_state = sid, c_symbol = DOLLAR, c_type = conflict_kind_of e, c_existing = e,
            c_new = Accept\<rparr> \<in> set cs')
     \<and> (\<forall>it \<in> set its. \<forall>u. candidate_for g ff u it \<longrightarrow>
          get_cell act' sid u = Some (Val (Reduce (productionId it)))
          \<or> (\<exists>c \<in> set cs'. c_state c = sid \<and> c_symbol c = u
                \<and> entry_value (c_new c) = Some (productionId it))
          \<or> (u = DOLLAR \<and> get_cell act' sid DOLLAR = Some (Val Accept)
              \<and> \<lparr>c_state = sid, c_symbol = DOLLAR, c_type = Reduce_Reduce,
                   c_existing = Val (Reduce (productionId it)), c_new = Accept\<rparr> \<in> set cs'))"
  using assms
proof (induction its arbitrary: act cs)
  case Nil
  then show ?case by (auto simp: first_candidate_def split: option.splits)
next
  case (Cons it its)
  from Cons.prems(1) obtain a1 c1 where
    1: "process_item g ff sid it (act, cs) = Inr (a1, c1)"
    and 2: "fold_err (process_item g ff sid) its (a1, c1) = Inr (act', cs')"
    by (cases "process_item g ff sid it (act, cs)") auto
  let ?acc = "\<lambda>xs. \<exists>x \<in> set xs. accept_item g x"
  let ?cell = "\<lambda>xs a u. if u = DOLLAR \<and> ?acc xs then Some (Val Accept)
             else case get_cell a sid u of
                    Some e \<Rightarrow> Some e
                  | None \<Rightarrow> map_option (\<lambda>p. Val (Reduce p)) (first_candidate g ff xs u)"
  let ?conf = "\<lambda>e. \<lparr>c_state = sid, c_symbol = DOLLAR, c_type = conflict_kind_of e,
      c_existing = e, c_new = Accept\<rparr>"
  have step: "a1 sid \<noteq> None \<and> (\<forall>s. s \<noteq> sid \<longrightarrow> a1 s = act s) \<and> prefix cs c1
      \<and> (distinct (reduce_keys cs) \<longrightarrow> distinct (reduce_keys c1))
      \<and> (new_ok cs \<longrightarrow> new_ok c1)"
  proof (cases "accept_item g it")
    case True
    with 1 have "install_accept sid (act, cs) = (a1, c1)" by (simp add: process_item_accept)
    from install_accept_props [OF this Cons.prems(2)] show ?thesis by simp
  next
    case False
    from process_item_other [OF False 1 Cons.prems(2)] show ?thesis by simp
  qed
  then have r1: "a1 sid \<noteq> None" by simp
  note ih = Cons.IH [OF 2 r1]
  from ih have ih_cell: "get_cell act' sid u = ?cell its a1 u" for u by simp
  from ih have ih_conf: "?conf e \<in> set cs'"
    if "get_cell a1 sid DOLLAR = Some e" "e \<noteq> Val Accept" "?acc its" for e
    using that by blast
  from ih have sub: "set c1 \<subseteq> set cs'" by (blast dest: set_mono_prefix)
  have A: "act' sid \<noteq> None" "\<forall>s. s \<noteq> sid \<longrightarrow> act' s = act s" "prefix cs cs'"
    "distinct (reduce_keys cs) \<longrightarrow> distinct (reduce_keys cs')" "new_ok cs \<longrightarrow> new_ok cs'"
    using step ih by (auto intro: prefix_order.trans)
  show ?case
  proof (cases "accept_item g it")
    case True
    with 1 have "install_accept sid (act, cs) = (a1, c1)" by (simp add: process_item_accept)
    note ia = install_accept_props [OF this Cons.prems(2)]
    from ia have c1: "get_cell a1 sid u = (if u = DOLLAR then Some (Val Accept)
        else get_cell act sid u)" for u by simp
    have nc: "\<not> candidate_for g ff u it" for u
      by (rule accept_not_candidate [OF True])
    have B: "get_cell act' sid u = ?cell (it # its) act u" for u
      using ih_cell [of u] c1 [of u] True nc
      by (auto simp: first_candidate_Cons split: option.splits)
    have C: "?conf e \<in> set cs'" if "get_cell act sid DOLLAR = Some e" "e \<noteq> Val Accept" for e
    proof -
      from ia that have "c1 = cs @ [?conf e]" by simp
      with sub show ?thesis by auto
    qed
    have D: "get_cell act' sid u = Some (Val (Reduce (productionId x)))
          \<or> (\<exists>c \<in> set cs'. c_state c = sid \<and> c_symbol c = u
                \<and> entry_value (c_new c) = Some (productionId x))
          \<or> (u = DOLLAR \<and> get_cell act' sid DOLLAR = Some (Val Accept)
              \<and> \<lparr>c_state = sid, c_symbol = DOLLAR, c_type = Reduce_Reduce,
                   c_existing = Val (Reduce (productionId x)), c_new = Accept\<rparr> \<in> set cs')"
      if "x \<in> set (it # its)" "candidate_for g ff u x" for x u
    proof -
      from that nc have "x \<in> set its" by auto
      with ih that(2) show ?thesis by blast
    qed
    from A B C D show ?thesis by blast
  next
    case False
    note po = process_item_other [OF False 1 Cons.prems(2)]
    from po have c1: "get_cell a1 sid u =
        (case get_cell act sid u of
           Some e \<Rightarrow> Some e
         | None \<Rightarrow> if candidate_for g ff u it then Some (Val (Reduce (productionId it)))
                   else None)" for u by simp
    have acc: "?acc (it # its) \<longleftrightarrow> ?acc its" using False by simp
    have B: "get_cell act' sid u = ?cell (it # its) act u" for u
      using ih_cell [of u] c1 [of u] acc
      by (auto simp: first_candidate_Cons split: option.splits)
    have C: "?conf e \<in> set cs'"
      if "get_cell act sid DOLLAR = Some e" "e \<noteq> Val Accept" "?acc (it # its)" for e
    proof -
      from c1 [of DOLLAR] that(1) have "get_cell a1 sid DOLLAR = Some e" by simp
      from ih_conf [OF this that(2)] that(3) acc show ?thesis by simp
    qed
    have D: "get_cell act' sid u = Some (Val (Reduce (productionId x)))
          \<or> (\<exists>c \<in> set cs'. c_state c = sid \<and> c_symbol c = u
                \<and> entry_value (c_new c) = Some (productionId x))
          \<or> (u = DOLLAR \<and> get_cell act' sid DOLLAR = Some (Val Accept)
              \<and> \<lparr>c_state = sid, c_symbol = DOLLAR, c_type = Reduce_Reduce,
                   c_existing = Val (Reduce (productionId x)), c_new = Accept\<rparr> \<in> set cs')"
      if x: "x \<in> set (it # its)" and cand: "candidate_for g ff u x" for x u
    proof (cases "x = it")
      case neq: False
      with x have "x \<in> set its" by simp
      with ih cand show ?thesis by blast
    next
      case True
      show ?thesis
      proof (cases "get_cell act sid u")
        case (Some e)
        with po cand True obtain c where "c \<in> set c1" "c_state c = sid" "c_symbol c = u"
          "entry_value (c_new c) = Some (productionId x)" by blast
        with sub show ?thesis by blast
      next
        case None
        with c1 [of u] cand True
        have g1: "get_cell a1 sid u = Some (Val (Reduce (productionId x)))" by simp
        show ?thesis
        proof (cases "u = DOLLAR \<and> ?acc its")
          case False
          with ih_cell [of u] g1 show ?thesis by auto
        next
          case yes: True
          with ih_cell [of u] have "get_cell act' sid DOLLAR = Some (Val Accept)" by simp
          moreover from ih_conf [of "Val (Reduce (productionId x))"] g1 yes
          have "?conf (Val (Reduce (productionId x))) \<in> set cs'" by simp
          ultimately show ?thesis using yes by (simp add: conflict_kind_of_def)
        qed
      qed
    qed
    from A B C D show ?thesis by blast
  qed
qed


text \<open>The target of the state's transition on a terminal; should the list of entries name a
  key twice, the entry listed last is the one whose write stays.\<close>

definition shift_of :: "grammar \<Rightarrow> dfa_state \<Rightarrow> symbol \<Rightarrow> nat option" where
  "shift_of g st t = (if t \<in> set (terminals g) then map_of (rev (transitions st)) t else None)"

text \<open>
  The action the specification gives a cell (state, symbol): \<open>Accept\<close> for \<open>'$'\<close> when the state
  has a completed item of the start symbol; otherwise the shift of the state's transition on
  the symbol, which is installed first; otherwise the reduction by the first reduce
  candidate for the symbol; otherwise nothing.
\<close>

definition expected_cell ::
  "grammar \<Rightarrow> first_follow \<Rightarrow> dfa_state \<Rightarrow> symbol \<Rightarrow> action_entry option" where
  "expected_cell g ff st t =
     (if t = DOLLAR \<and> list_ex (accept_item g) (items st) then Some Accept
      else case shift_of g st t of
             Some n \<Rightarrow> Some (Shift n)
           | None \<Rightarrow> map_option Reduce (first_candidate g ff (items st) t))"

lemma shift_row:
  assumes "fold (install_transition g sid) trs (act, gt) = (act1, gt1)" and "act sid \<noteq> None"
  shows "act1 sid \<noteq> None \<and> (\<forall>s. s \<noteq> sid \<longrightarrow> act1 s = act s)
     \<and> (\<forall>t. own_cell act1 sid t =
           (case (if t \<in> set (terminals g) then map_of (rev trs) t else None) of
              Some n \<Rightarrow> Some (Shift n)
            | None \<Rightarrow> own_cell act sid t))"
  using assms
proof (induction trs arbitrary: act gt)
  case Nil
  then show ?case by simp
next
  case (Cons tr trs)
  obtain s n where tr: "tr = (s, n)" by (cases tr)
  obtain a2 g2 where 1: "install_transition g sid tr (act, gt) = (a2, g2)"
    by (cases "install_transition g sid tr (act, gt)")
  with Cons.prems(1) have 2: "fold (install_transition g sid) trs (a2, g2) = (act1, gt1)"
    by simp
  have a2: "a2 = (if s \<in> set (terminals g) then set_cell act sid s (Shift n) else act)"
    using 1 tr by (auto simp: install_transition_def split: if_splits)
  have r2: "a2 sid \<noteq> None" using Cons.prems(2) by (simp add: a2 set_cell_def)
  have o2: "\<forall>s'. s' \<noteq> sid \<longrightarrow> a2 s' = act s'" by (simp add: a2 set_cell_def)
  have c2: "own_cell a2 sid t =
      (if s \<in> set (terminals g) \<and> t = s then Some (Shift n) else own_cell act sid t)" for t
    by (simp add: a2 own_set_cell)
  note ih = Cons.IH [OF 2 r2]
  have m: "map_of (rev (tr # trs)) t =
      (case map_of (rev trs) t of Some x \<Rightarrow> Some x | None \<Rightarrow> if t = s then Some n else None)"
    for t
    by (simp add: tr map_add_def split: option.splits)
  have "own_cell act1 sid t =
           (case (if t \<in> set (terminals g) then map_of (rev (tr # trs)) t else None) of
              Some n \<Rightarrow> Some (Shift n)
            | None \<Rightarrow> own_cell act sid t)" for t
    unfolding m using ih c2 [of t] by (auto split: option.splits)
  with ih o2 show ?case by simp
qed

text \<open>What the pass for one state leaves: the rows of the other states and the conflicts
  recorded before are kept.\<close>

lemma build_state_props:
  assumes "build_state g ff st (act, gt, cs) = Inr (act', gt', cs')"
  shows "\<exists>act1. act1 (state_id st) \<noteq> None
     \<and> (\<forall>t. own_cell act1 (state_id st) t = map_option Shift (shift_of g st t))
     \<and> fold_err (process_item g ff (state_id st)) (items st) (act1, cs) = Inr (act', cs')
     \<and> (\<forall>s. s \<noteq> state_id st \<longrightarrow> act' s = act s)"
proof -
  let ?sid = "state_id st"
  let ?a0 = "act(?sid \<mapsto> Map.empty)"
  obtain act1 gt1 where t: "fold (install_transition g ?sid) (transitions st)
      (?a0, gt(?sid \<mapsto> Map.empty)) = (act1, gt1)"
    by (cases "fold (install_transition g ?sid) (transitions st)
      (?a0, gt(?sid \<mapsto> Map.empty))")
  have "?a0 ?sid \<noteq> None" by simp
  note sr = shift_row [OF t this]
  from assms t have f:
    "fold_err (process_item g ff ?sid) (items st) (act1, cs) = Inr (act', cs')"
    by (auto simp: build_state_def Let_def split: sum.splits)
  from sr have r1: "act1 ?sid \<noteq> None" by simp
  have cells: "own_cell act1 ?sid t = map_option Shift (shift_of g st t)" for t
    using sr by (auto simp: shift_of_def own_cell_def split: option.splits)
  have "act' s = act s" if "s \<noteq> ?sid" for s
    using items_loop_props [OF f r1] sr that by simp
  with r1 cells f show ?thesis by blast
qed

lemma build_state_frame:
  assumes "build_state g ff st (act, gt, cs) = Inr (act', gt', cs')"
  shows "(\<forall>s. s \<noteq> state_id st \<longrightarrow> act' s = act s) \<and> prefix cs cs'
     \<and> (distinct (reduce_keys cs) \<longrightarrow> distinct (reduce_keys cs'))
     \<and> (new_ok cs \<longrightarrow> new_ok cs')"
proof -
  from build_state_props [OF assms] obtain act1 where
    "act1 (state_id st) \<noteq> None"
    "fold_err (process_item g ff (state_id st)) (items st) (act1, cs) = Inr (act', cs')"
    "\<forall>s. s \<noteq> state_id st \<longrightarrow> act' s = act s"
    by blast
  with items_loop_props [of g ff "state_id st" "items st" act1 cs act' cs'] show ?thesis
    by simp
qed

lemma build_states_frame:
  assumes "fold_err (build_state g ff) sts (act, gt, cs) = Inr (act', gt', cs')"
  shows "(\<forall>s. s \<notin> state_id ` set sts \<longrightarrow> act' s = act s) \<and> prefix cs cs'
     \<and> (distinct (reduce_keys cs) \<longrightarrow> distinct (reduce_keys cs'))
     \<and> (new_ok cs \<longrightarrow> new_ok cs')"
  using assms
proof (induction sts arbitrary: act gt cs)
  case Nil
  then show ?case by simp
next
  case (Cons x sts)
  from Cons.prems obtain a1 g1 c1 where
    1: "build_state g ff x (act, gt, cs) = Inr (a1, g1, c1)"
    and 2: "fold_err (build_state g ff) sts (a1, g1, c1) = Inr (act', gt', cs')"
    by (cases "build_state g ff x (act, gt, cs)") auto
  from build_state_frame [OF 1] Cons.IH [OF 2] show ?case
    by (auto intro: prefix_order.trans)
qed

text \<open>With pairwise different ids, the row of a state in the final table is the row its own
  pass left.\<close>

lemma build_states_row:
  assumes "fold_err (build_state g ff) sts (act, gt, cs) = Inr (act', gt', cs')"
    and "distinct (map state_id sts)" and "st \<in> set sts"
  shows "\<exists>a0 g0 c0 a1 g1 c1. build_state g ff st (a0, g0, c0) = Inr (a1, g1, c1)
     \<and> act' (state_id st) = a1 (state_id st) \<and> prefix c1 cs'"
  using assms
proof (induction sts arbitrary: act gt cs)
  case Nil
  then show ?case by simp
next
  case (Cons x sts)
  from Cons.prems(1) obtain a1 g1 c1 where
    1: "build_state g ff x (act, gt, cs) = Inr (a1, g1, c1)"
    and 2: "fold_err (build_state g ff) sts (a1, g1, c1) = Inr (act', gt', cs')"
    by (cases "build_state g ff x (act, gt, cs)") auto
  show ?case
  proof (cases "st = x")
    case True
    from Cons.prems(2) True have "state_id st \<notin> state_id ` set sts" by auto
    with build_states_frame [OF 2] have "act' (state_id st) = a1 (state_id st)" "prefix c1 cs'"
      by simp_all
    with 1 True show ?thesis by blast
  next
    case False
    with Cons.prems have "distinct (map state_id sts)" "st \<in> set sts" by simp_all
    from Cons.IH [OF 2 this] show ?thesis .
  qed
qed

text \<open>The augmented grammar \<open>E' \<rightarrow> E\<close>, \<open>E \<rightarrow> E + E | id\<close>, its FOLLOW sets and its automaton.\<close>

definition g_amb :: grammar where
  "g_amb =
     \<lparr>productions =
        [\<lparr>prod_id = 0, head = asc ''E'' @ [39], body = [asc ''E'']\<rparr>,
         \<lparr>prod_id = 1, head = asc ''E'', body = [asc ''E'', asc ''+'', asc ''E'']\<rparr>,
         \<lparr>prod_id = 2, head = asc ''E'', body = [asc ''id'']\<rparr>],
      terminals = [asc ''+'', asc ''id'', DOLLAR],
      nonTerminals = [asc ''E'', asc ''E'' @ [39]],
      startSymbol = asc ''E'' @ [39]\<rparr>"

definition ff_amb :: first_follow where
  "ff_amb =
     \<lparr>ff_first = Map.empty,
      ff_follow = [asc ''E'' \<mapsto> [DOLLAR, asc ''+''], asc ''E'' @ [39] \<mapsto> [DOLLAR]]\<rparr>"

definition dfa_amb :: "dfa_state list" where
  "dfa_amb =
     [\<lparr>state_id = 0,
       items = [\<lparr>productionId = 0, dotPosition = 0\<rparr>, \<lparr>productionId = 1, dotPosition = 0\<rparr>,
                \<lparr>productionId = 2, dotPosition = 0\<rparr>],
       transitions = [(asc ''E'', 1), (asc ''id'', 2)]\<rparr>,
      \<lparr>state_id = 1,
       items = [\<lparr>productionId = 0, dotPosition = 1\<rparr>, \<lparr>productionId = 1, dotPosition = 1\<rparr>],
       transitions = [(asc ''+'', 3)]\<rparr>,
      \<lparr>state_id = 2, items = [\<lparr>productionId = 2, dotPosition = 1\<rparr>], transitions = []\<rparr>,
      \<lparr>state_id = 3,
       items = [\<lparr>productionId = 1, dotPosition = 2\<rparr>, \<lparr>productionId = 1, dotPosition = 0\<rparr>,
                \<lparr>productionId = 2, dotPosition = 0\<rparr>],
       transitions = [(asc ''E'', 4), (asc ''id'', 2)]\<rparr>,
      \<lparr>state_id = 4,
       items = [\<lparr>productionId = 1, dotPosition = 3\<rparr>, \<lparr>productionId = 1, dotPosition = 1\<rparr>],
       transitions = [(asc ''+'', 3)]\<rparr>]"


lemma buildTable_g_amb:
  "map_sum id conflicts (buildTable g_amb dfa_amb ff_amb) =
     Inr [\<lparr>c_state = 4, c_symbol = asc ''+'', c_type = Shift_Reduce,
           c_existing = Val (Shift 3), c_new = Reduce 1\<rparr>]"
  by code_simp

text \<open>The read \<open>table.action[s]?.[t]\<close> of a finished table.\<close>

definition action_at :: "nat \<Rightarrow> symbol \<Rightarrow> parsing_table \<Rightarrow> action_entry js_val option" where
  "action_at s t tbl = get_cell (action tbl) s t"

text \<open>Two states with the same id: the first has a transition on \<open>'+'\<close>, the second the
  completed item \<open>E \<rightarrow> E + E .\<close>\<close>

definition st_first :: dfa_state where
  "st_first = \<lparr>state_id = 0, items = [], transitions = [(asc ''+'', 3)]\<rparr>"

definition st_again :: dfa_state where
  "st_again =
     \<lparr>state_id = 0, items = [\<lparr>productionId = 1, dotPosition = 3\<rparr>], transitions = []\<rparr>"

text \<open>
  C1, as stated, fails for a state list that names an id twice: the pass for a state begins by
  assigning a fresh row to its id, so the second state of id 0 wipes the shift that the first
  installed at \<open>(0, '+')\<close>; the reduce candidate then finds the cell empty, takes it, and no
  conflict is recorded.
\<close>

theorem buildTable_counterexample:
  "map_sum id (action_at 0 (asc ''+'')) (buildTable g_amb [st_first] ff_amb) =
     Inr (Some (Val (Shift 3)))
   \<and> map_sum id (action_at 0 (asc ''+'')) (buildTable g_amb [st_first, st_again] ff_amb) =
     Inr (Some (Val (Reduce 1)))
   \<and> map_sum id conflicts (buildTable g_amb [st_first, st_again] ff_amb) = Inr []"
  by code_simp

text \<open>
  C1, amended: for a state list whose ids are pairwise different and a grammar that does not
  declare \<open>__proto__\<close> as a terminal, in the table that \<open>buildTable\<close> returns and for every
  state of the list:
  \<^item> a cell whose symbol is not the name of a property that every object inherits holds
    \<open>Accept\<close> when the symbol is \<open>'$'\<close> and the state has a completed item of the start
    symbol; otherwise the shift of the state's transition on that terminal; otherwise the
    reduction of the first reduce candidate for the symbol in the order of the item array;
    otherwise nothing. So a reduce candidate never replaces an occupied cell, and the only
    overwrite of an occupied cell is the one by \<open>Accept\<close>;
  \<^item> a shift that \<open>Accept\<close> displaces is recorded as a conflict;
  \<^item> every reduce candidate for a symbol is stored in the cell, or a conflict of that state
    and symbol with the candidate as its new action is recorded, or the cell is \<open>'$'\<close>,
    holds \<open>Accept\<close>, and the conflict of \<open>Accept\<close> with the candidate is recorded;
  \<^item> no two recorded conflicts with a reduce candidate agree in (state, symbol, conflict
    kind, production id).
\<close>

theorem buildTable_first_writer_wins:
  assumes "buildTable g states ff = Inr tbl" and "distinct (map state_id states)"
    and "PROTO \<notin> set (terminals g)" and "st \<in> set states"
  shows "(\<forall>u. u \<notin> set object_prototype_keys \<longrightarrow>
            get_cell (action tbl) (state_id st) u = map_option Val (expected_cell g ff st u))
     \<and> (\<forall>n. shift_of g st DOLLAR = Some n \<and> list_ex (accept_item g) (items st) \<longrightarrow>
          \<lparr>c_state = state_id st, c_symbol = DOLLAR, c_type = Shift_Reduce,
            c_existing = Val (Shift n), c_new = Accept\<rparr> \<in> set (conflicts tbl))
     \<and> (\<forall>it \<in> set (items st). \<forall>u. candidate_for g ff u it \<longrightarrow>
          get_cell (action tbl) (state_id st) u = Some (Val (Reduce (productionId it)))
          \<or> (\<exists>c \<in> set (conflicts tbl). c_state c = state_id st \<and> c_symbol c = u
                \<and> c_new c = Reduce (productionId it))
          \<or> (u = DOLLAR \<and> get_cell (action tbl) (state_id st) DOLLAR = Some (Val Accept)
              \<and> \<lparr>c_state = state_id st, c_symbol = DOLLAR, c_type = Reduce_Reduce,
                   c_existing = Val (Reduce (productionId it)), c_new = Accept\<rparr>
                 \<in> set (conflicts tbl)))
     \<and> distinct (reduce_keys (conflicts tbl))"
proof -
  let ?sid = "state_id st"
  from assms(1) obtain act gt cs where
    f: "fold_err (build_state g ff) states (Map.empty, Map.empty, []) = Inr (act, gt, cs)"
    and tb: "action tbl = act" "conflicts tbl = cs"
    by (auto simp: buildTable_def split: sum.splits)
  have ok0: "new_ok []" "distinct (reduce_keys [])" by (simp_all add: new_ok_def reduce_keys_def)
  from build_states_frame [OF f] ok0 have ok: "new_ok cs" "distinct (reduce_keys cs)"
    by simp_all
  from build_states_row [OF f assms(2,4)] obtain a0 g0 c0 a1 g1 c1 where
    b: "build_state g ff st (a0, g0, c0) = Inr (a1, g1, c1)"
    and row: "act ?sid = a1 ?sid" and pre: "prefix c1 cs"
    by blast
  from pre have sub: "set c1 \<subseteq> set cs" by (rule set_mono_prefix)
  from build_state_props [OF b] obtain act1 where
    r1: "act1 ?sid \<noteq> None"
    and sh: "\<And>t. own_cell act1 ?sid t = map_option Shift (shift_of g st t)"
    and lp: "fold_err (process_item g ff ?sid) (items st) (act1, c0) = Inr (a1, c1)"
    by blast
  note il = items_loop_props [OF lp r1]
  have gc: "get_cell act ?sid u = get_cell a1 ?sid u" for u
    by (simp add: get_cell_def row)
  have np: "own_cell act1 ?sid PROTO = None"
    using assms(3) by (simp add: sh shift_of_def)
  have ex: "(\<exists>it \<in> set (items st). accept_item g it) \<longleftrightarrow> list_ex (accept_item g) (items st)"
    by (simp add: list_ex_iff)
  have A: "get_cell act ?sid u = map_option Val (expected_cell g ff st u)"
    if "u \<notin> set object_prototype_keys" for u
  proof -
    have "get_cell act1 ?sid u = map_option Val (map_option Shift (shift_of g st u))"
      using get_cell_own [OF np that] by (simp add: sh)
    with il [THEN conjunct2, THEN conjunct2, THEN conjunct1, rule_format, of u]
    show ?thesis
      by (auto simp: gc expected_cell_def ex option.map_comp comp_def split: option.splits)
  qed
  have B: "\<lparr>c_state = ?sid, c_symbol = DOLLAR, c_type = Shift_Reduce,
            c_existing = Val (Shift n), c_new = Accept\<rparr> \<in> set cs"
    if "shift_of g st DOLLAR = Some n" "list_ex (accept_item g) (items st)" for n
  proof -
    have "own_cell act1 ?sid DOLLAR = Some (Shift n)" using that(1) by (simp add: sh)
    then have "get_cell act1 ?sid DOLLAR = Some (Val (Shift n))" by (simp only: get_cell_Val)
    moreover have "Val (Shift n) \<noteq> Val Accept" by simp
    moreover have "\<exists>it \<in> set (items st). accept_item g it" using that(2) by (simp add: ex)
    ultimately have "\<lparr>c_state = ?sid, c_symbol = DOLLAR,
        c_type = conflict_kind_of (Val (Shift n)), c_existing = Val (Shift n),
        c_new = Accept\<rparr> \<in> set c1"
      using il by blast
    with sub show ?thesis by (auto simp: conflict_kind_of_def)
  qed
  have C: "get_cell act ?sid u = Some (Val (Reduce (productionId it)))
          \<or> (\<exists>c \<in> set cs. c_state c = ?sid \<and> c_symbol c = u
                \<and> c_new c = Reduce (productionId it))
          \<or> (u = DOLLAR \<and> get_cell act ?sid DOLLAR = Some (Val Accept)
              \<and> \<lparr>c_state = ?sid, c_symbol = DOLLAR, c_type = Reduce_Reduce,
                   c_existing = Val (Reduce (productionId it)), c_new = Accept\<rparr> \<in> set cs)"
    if "it \<in> set (items st)" "candidate_for g ff u it" for it u
  proof -
    from il that have "get_cell a1 ?sid u = Some (Val (Reduce (productionId it)))
          \<or> (\<exists>c \<in> set c1. c_state c = ?sid \<and> c_symbol c = u
                \<and> entry_value (c_new c) = Some (productionId it))
          \<or> (u = DOLLAR \<and> get_cell a1 ?sid DOLLAR = Some (Val Accept)
              \<and> \<lparr>c_state = ?sid, c_symbol = DOLLAR, c_type = Reduce_Reduce,
                   c_existing = Val (Reduce (productionId it)), c_new = Accept\<rparr> \<in> set c1)"
      by blast
    moreover have "c_new c = Reduce (productionId it)"
      if "c \<in> set c1" "entry_value (c_new c) = Some (productionId it)" for c
    proof -
      from that(1) sub ok(1) have "c_new c = Accept \<or> (\<exists>p. c_new c = Reduce p)"
        by (auto simp: new_ok_def)
      with that(2) show ?thesis by (auto simp: entry_value_def)
    qed
    ultimately show ?thesis using sub by (auto simp: gc)
  qed
  from A B C ok(2) show ?thesis by (simp add: tb)
qed


theorem buildTable_first_writer_wins_witness:
  "distinct (map state_id dfa_amb) \<and> PROTO \<notin> set (terminals g_amb)
   \<and> (\<exists>tbl. buildTable g_amb dfa_amb ff_amb = Inr tbl
        \<and> get_cell (action tbl) 4 (asc ''+'') = Some (Val (Shift 3))
        \<and> get_cell (action tbl) 4 DOLLAR = Some (Val (Reduce 1))
        \<and> get_cell (action tbl) 1 DOLLAR = Some (Val Accept)
        \<and> (\<exists>c \<in> set (conflicts tbl). c_state c = 4 \<and> c_symbol c = asc ''+''
              \<and> c_new c = Reduce 1)
        \<and> distinct (reduce_keys (conflicts tbl)))"
proof -
  from buildTable_g_amb obtain tbl where t: "buildTable g_amb dfa_amb ff_amb = Inr tbl"
    by (cases "buildTable g_amb dfa_amb ff_amb") auto
  have d: "distinct (map state_id dfa_amb)" by (simp add: dfa_amb_def)
  have p: "PROTO \<notin> set (terminals g_amb)" by (simp add: g_amb_def PROTO_def asc_def DOLLAR_def)
  have m4: "dfa_amb ! 4 \<in> set dfa_amb" and m1: "dfa_amb ! 1 \<in> set dfa_amb"
    by (simp_all add: dfa_amb_def)
  have i4: "state_id (dfa_amb ! 4) = 4" and i1: "state_id (dfa_amb ! 1) = 1"
    by (simp_all add: dfa_amb_def)
  have k1: "asc ''+'' \<notin> set object_prototype_keys"
    using object_prototype_keys_length [of "asc ''+''"] by (auto simp: asc_def)
  have k2: "DOLLAR \<notin> set object_prototype_keys"
    using object_prototype_keys_length [of DOLLAR] by (auto simp: DOLLAR_def asc_def)
  have e1: "expected_cell g_amb ff_amb (dfa_amb ! 4) (asc ''+'') = Some (Shift 3)"
    by code_simp
  have e2: "expected_cell g_amb ff_amb (dfa_amb ! 4) DOLLAR = Some (Reduce 1)"
    by code_simp
  have e3: "expected_cell g_amb ff_amb (dfa_amb ! 1) DOLLAR = Some Accept"
    by code_simp
  have c: "candidate_for g_amb ff_amb (asc ''+'') \<lparr>productionId = 1, dotPosition = 3\<rparr>"
    by code_simp
  have it: "\<lparr>productionId = 1, dotPosition = 3\<rparr> \<in> set (items (dfa_amb ! 4))"
    by (simp add: dfa_amb_def)
  note T4 = buildTable_first_writer_wins [OF t d p m4, unfolded i4]
  note T1 = buildTable_first_writer_wins [OF t d p m1, unfolded i1]
  from T4 k1 e1 have a: "get_cell (action tbl) 4 (asc ''+'') = Some (Val (Shift 3))" by simp
  from T4 k2 e2 have b: "get_cell (action tbl) 4 DOLLAR = Some (Val (Reduce 1))" by simp
  from T1 k2 e3 have a1: "get_cell (action tbl) 1 DOLLAR = Some (Val Accept)" by simp
  have ne: "asc ''+'' \<noteq> DOLLAR" by (simp add: asc_def DOLLAR_def)
  from T4 it c have
    "get_cell (action tbl) 4 (asc ''+'') = Some (Val (Reduce 1))
     \<or> (\<exists>c \<in> set (conflicts tbl). c_state c = 4 \<and> c_symbol c = asc ''+''
           \<and> c_new c = Reduce 1)
     \<or> asc ''+'' = DOLLAR"
    by fastforce
  with a ne have cf: "\<exists>c \<in> set (conflicts tbl). c_state c = 4 \<and> c_symbol c = asc ''+''
           \<and> c_new c = Reduce 1"
    by simp
  from T4 have "distinct (reduce_keys (conflicts tbl))" by simp
  with t d p a b a1 cf show ?thesis by blast
qed

end
